theory Spec2Isabelle
  imports Complex_Main
begin

section \<open>Python values used by morph/morphemes.py\<close>

text \<open>
  Exceptions are values.  Only the exception classes that the modelled functions can raise
  are listed.
\<close>

datatype pyerror =
    KeyError
  | TypeError
  | AssertionError
  | UnboundLocalError
  | UnicodeDecodeError
  | IOError
  | OverflowError
  | ValueError

section \<open>Morpheme\<close>

text \<open>
  \<^verbatim>\<open>class Morpheme\<close>: five string attributes.  A \<^typ>\<open>string\<close> stands for a Python
  \<^verbatim>\<open>str\<close>; one list element stands for one code point, so \<^const>\<open>length\<close> is
  Python's \<^verbatim>\<open>len\<close>.
\<close>

record Morpheme =
  base :: string
  inflected :: string
  pos :: string
  subPos :: string
  read :: string

text \<open>\<^verbatim>\<open>Morpheme.__init__(self, base, inflected, pos, subPos, read)\<close>\<close>

definition Morpheme_init :: "string \<Rightarrow> string \<Rightarrow> string \<Rightarrow> string \<Rightarrow> string \<Rightarrow> Morpheme" where
  "Morpheme_init b i p s r = \<lparr>base = b, inflected = i, pos = p, subPos = s, read = r\<rparr>"

text \<open>
  \<^verbatim>\<open>Morpheme.__eq__\<close>, with its four early returns in the order of the source.  The
  \<^verbatim>\<open>isinstance\<close> test is the type of the second argument; the comparison of
  \<^verbatim>\<open>inflected\<close> is commented out in the source and absent here.
\<close>

definition Morpheme_eq :: "Morpheme \<Rightarrow> Morpheme \<Rightarrow> bool" where
  "Morpheme_eq self other =
     (if pos self \<noteq> pos other then False
      else if subPos self \<noteq> subPos other then False
      else if read self \<noteq> read other then False
      else if base self \<noteq> base other then False
      else True)"

text \<open>
  \<^verbatim>\<open>Morpheme.__hash__\<close> is \<^verbatim>\<open>hash((self.pos, self.subPos, self.read, self.base))\<close>.
  Python's builtin \<^verbatim>\<open>hash\<close> on a tuple of strings is the parameter \<open>hash\<close>.
\<close>

definition Morpheme_hash :: "(string \<times> string \<times> string \<times> string \<Rightarrow> int) \<Rightarrow> Morpheme \<Rightarrow> int" where
  "Morpheme_hash hash self = hash (pos self, subPos self, read self, base self)"

section \<open>Locations\<close>

text \<open>
  The attribute values of an instance of \<^verbatim>\<open>Location\<close> and of its four subclasses.  The
  base class has an empty body (\<^verbatim>\<open>class Location: pass\<close>), so an instance of it has no
  attribute at all.  The arguments are the attributes in the order in which the
  constructors assign them:
  \<^item> \<open>Nowhere maturity weight\<close>
  \<^item> \<open>Corpus name maturity weight\<close>
  \<^item> \<open>TextFile filePath lineNo maturity weight\<close>
  \<^item> \<open>AnkiDeck noteId fieldName fieldValue guid maturities maturity weight\<close>
\<close>

datatype Location =
    Location
  | Nowhere int int
  | Corpus string int int
  | TextFile string int int int
  | AnkiDeck int string string string "int list" int int

text \<open>
  Python's \<^verbatim>\<open>max\<close> on a non-empty list walks the list and keeps the larger element.
\<close>

definition py_max :: "int list \<Rightarrow> int" where
  "py_max xs = fold max (tl xs) (hd xs)"

text \<open>
  The constructors.  An argument that has a default value in the source is an
  \<^typ>\<open>int option\<close>, \<^const>\<open>None\<close> when the caller leaves it out.
  \<^verbatim>\<open>Corpus.__init__(self, name, weight)\<close> has no default for \<^verbatim>\<open>weight\<close>: a call
  without it raises \<^verbatim>\<open>TypeError\<close>.
\<close>

definition Nowhere_init :: "int option \<Rightarrow> int option \<Rightarrow> Location" where
  "Nowhere_init maturity weight =
     Nowhere (case maturity of None \<Rightarrow> 0 | Some v \<Rightarrow> v) (case weight of None \<Rightarrow> 0 | Some w \<Rightarrow> w)"

definition Corpus_init :: "string \<Rightarrow> int option \<Rightarrow> pyerror + Location" where
  "Corpus_init name weight =
     (case weight of None \<Rightarrow> Inl TypeError | Some w \<Rightarrow> Inr (Corpus name 0 w))"

definition TextFile_init :: "string \<Rightarrow> int \<Rightarrow> int \<Rightarrow> int option \<Rightarrow> Location" where
  "TextFile_init filePath lineNo maturity weight =
     TextFile filePath lineNo maturity (case weight of None \<Rightarrow> 1 | Some w \<Rightarrow> w)"

definition AnkiDeck_init ::
  "int \<Rightarrow> string \<Rightarrow> string \<Rightarrow> string \<Rightarrow> int list \<Rightarrow> int option \<Rightarrow> Location" where
  "AnkiDeck_init noteId fieldName fieldValue guid maturities weight =
     AnkiDeck noteId fieldName fieldValue guid maturities
       (if maturities \<noteq> [] then py_max maturities else 0)
       (case weight of None \<Rightarrow> 1 | Some w \<Rightarrow> w)"

text \<open>
  Attribute access: \<^const>\<open>None\<close> when the instance has no such attribute, which is
  where \<^verbatim>\<open>getattr(loc, name, default)\<close> answers its default.
\<close>

fun maturity_attr :: "Location \<Rightarrow> int option" where
  "maturity_attr Location = None"
| "maturity_attr (Nowhere maturity weight) = Some maturity"
| "maturity_attr (Corpus name maturity weight) = Some maturity"
| "maturity_attr (TextFile filePath lineNo maturity weight) = Some maturity"
| "maturity_attr (AnkiDeck noteId fieldName fieldValue guid maturities maturity weight) = Some maturity"

fun weight_attr :: "Location \<Rightarrow> int option" where
  "weight_attr Location = None"
| "weight_attr (Nowhere maturity weight) = Some weight"
| "weight_attr (Corpus name maturity weight) = Some weight"
| "weight_attr (TextFile filePath lineNo maturity weight) = Some weight"
| "weight_attr (AnkiDeck noteId fieldName fieldValue guid maturities maturity weight) = Some weight"

definition getattr :: "(Location \<Rightarrow> int option) \<Rightarrow> Location \<Rightarrow> int \<Rightarrow> int" where
  "getattr attr l dflt = (case attr l of None \<Rightarrow> dflt | Some v \<Rightarrow> v)"

text \<open>
  None of the location classes defines \<^verbatim>\<open>__eq__\<close> or \<^verbatim>\<open>__hash__\<close>, so Python
  compares and hashes their instances by object identity: a set may hold two locations
  with the same attribute values.  A location object is therefore its identity together
  with its attribute values.  Locations are never assigned to after construction.
\<close>

record loc_obj =
  obj_id :: nat
  obj_val :: Location

section \<open>The database: a dict from Morpheme to a set object\<close>

text \<open>
  \<^verbatim>\<open>MorphDb.db\<close> is a Python dict whose keys are morphemes and whose values are
  references to mutable set objects.  The dict is an association list in insertion order;
  a key is found with \<^const>\<open>Morpheme_eq\<close>, as Python finds it with \<^verbatim>\<open>__eq__\<close>
  (among the keys of equal hash, and equal morphemes have equal hashes).  A set object is
  named by its address in the store.
\<close>

type_synonym 'v mdict = "(Morpheme \<times> 'v) list"

fun dict_get :: "'v mdict \<Rightarrow> Morpheme \<Rightarrow> 'v option" where
  "dict_get [] m = None"
| "dict_get ((k, v) # d) m = (if Morpheme_eq k m then Some v else dict_get d m)"

text \<open>
  \<^verbatim>\<open>d[m] = v\<close>: an existing equal key keeps its key object and its place and takes the
  new value; a new key goes to the end.
\<close>

fun dict_set :: "'v mdict \<Rightarrow> Morpheme \<Rightarrow> 'v \<Rightarrow> 'v mdict" where
  "dict_set [] m v = [(m, v)]"
| "dict_set ((k, w) # d) m v =
     (if Morpheme_eq k m then (k, v) # d else (k, w) # dict_set d m v)"

text \<open>
  The store of set objects: the contents of each address, the next address to allocate
  and the identity the next location object gets.
\<close>

record store =
  sets :: "nat \<Rightarrow> loc_obj set"
  next_set :: nat
  next_id :: nat

text \<open>\<^verbatim>\<open>set([loc])\<close>: a new set object holding one location.\<close>

definition new_set :: "store \<Rightarrow> loc_obj \<Rightarrow> nat \<times> store" where
  "new_set st l =
     (next_set st, st\<lparr>sets := (sets st)(next_set st := {l}), next_set := Suc (next_set st)\<rparr>)"

text \<open>Construction of a location object: the attribute values get a fresh identity.\<close>

definition new_loc :: "store \<Rightarrow> Location \<Rightarrow> loc_obj \<times> store" where
  "new_loc st v = (\<lparr>obj_id = next_id st, obj_val = v\<rparr>, st\<lparr>next_id := Suc (next_id st)\<rparr>)"

text \<open>
  \<^verbatim>\<open>MorphDb.addMLs\<close>: for each pair, \<^verbatim>\<open>self.db[m].add(loc)\<close>, and on
  \<^verbatim>\<open>KeyError\<close> \<^verbatim>\<open>self.db[m] = set([loc])\<close>.  The store and the dict are passed and
  returned.
\<close>

fun addMLs :: "store \<Rightarrow> nat mdict \<Rightarrow> (Morpheme \<times> loc_obj) list \<Rightarrow> store \<times> nat mdict" where
  "addMLs st db [] = (st, db)"
| "addMLs st db ((m, l) # mls) =
     (case dict_get db m of
        Some s \<Rightarrow> addMLs (st\<lparr>sets := (sets st)(s := insert l (sets st s))\<rparr>) db mls
      | None \<Rightarrow>
          (case new_set st l of (s, st') \<Rightarrow> addMLs st' (dict_set db m s) mls))"

text \<open>
  \<^verbatim>\<open>MorphDb.addMLs1(m, locs)\<close>: a new key takes the caller's set object itself, an
  existing key has its set updated in place.
\<close>

definition addMLs1 :: "store \<Rightarrow> nat mdict \<Rightarrow> Morpheme \<Rightarrow> nat \<Rightarrow> store \<times> nat mdict" where
  "addMLs1 st db m locs =
     (case dict_get db m of
        None \<Rightarrow> (st, dict_set db m locs)
      | Some s \<Rightarrow> (st\<lparr>sets := (sets st)(s := sets st s \<union> sets st locs)\<rparr>, db))"

text \<open>\<^verbatim>\<open>MorphDb.addMsL(ms, loc)\<close> is \<^verbatim>\<open>self.addMLs((m, loc) for m in ms)\<close>.\<close>

definition addMsL :: "store \<Rightarrow> nat mdict \<Rightarrow> Morpheme list \<Rightarrow> loc_obj \<Rightarrow> store \<times> nat mdict" where
  "addMsL st db ms l = addMLs st db (map (\<lambda>m. (m, l)) ms)"

text \<open>
  \<^verbatim>\<open>MorphDb.merge\<close>.  The loop runs over \<^verbatim>\<open>md.db.items()\<close>; \<open>new\<close> is the running
  count.  In the \<^verbatim>\<open>try\<close> block \<^verbatim>\<open>self.db[m]\<close> is looked up before \<open>new\<close> changes,
  then the set object of \<open>self\<close> is updated in place; on \<^verbatim>\<open>KeyError\<close> the key takes the
  set object of \<open>md\<close> itself.  Nothing is written to the dict of \<open>md\<close>, which is why
  only the dict of \<open>self\<close> is returned.
\<close>

fun merge_loop :: "store \<Rightarrow> nat mdict \<Rightarrow> nat mdict \<Rightarrow> nat \<Rightarrow> store \<times> nat mdict \<times> nat" where
  "merge_loop st db [] new = (st, db, new)"
| "merge_loop st db ((m, locs) # items) new =
     (case dict_get db m of
        Some s \<Rightarrow>
          merge_loop (st\<lparr>sets := (sets st)(s := sets st s \<union> sets st locs)\<rparr>) db items
            (new + card (sets st locs - sets st s))
      | None \<Rightarrow> merge_loop st (dict_set db m locs) items (new + card (sets st locs)))"

definition merge :: "store \<Rightarrow> nat mdict \<Rightarrow> nat mdict \<Rightarrow> store \<times> nat mdict \<times> nat" where
  "merge st db md = merge_loop st db md 0"

text \<open>
  \<^verbatim>\<open>MorphDb.frequency\<close>.  \<^verbatim>\<open>self.db[m]\<close> raises \<^verbatim>\<open>KeyError\<close> for an absent morpheme.
\<close>

definition frequency :: "store \<Rightarrow> nat mdict \<Rightarrow> Morpheme \<Rightarrow> pyerror + int" where
  "frequency st db m =
     (case dict_get db m of
        None \<Rightarrow> Inl KeyError
      | Some s \<Rightarrow> Inr (\<Sum>l\<in>sets st s. getattr weight_attr (obj_val l) 1))"

text \<open>
  A Python float is a double: 53 significant bits, the nearest one taken, and of two
  that are equally near the one whose last bit is 0.  \<open>round_double x\<close> is the double
  nearest to the real number \<open>x\<close>, for \<open>x\<close> in the range of the normal doubles: with
  \<open>2 ^ e \<le> \<bar>x\<bar> < 2 ^ (e + 1)\<close>, the doubles around \<open>x\<close> are the multiples of
  \<open>2 ^ (e - 52)\<close>.
\<close>

definition round_double :: "real \<Rightarrow> real" where
  "round_double x =
     (if x = 0 then 0
      else let q = 2 powr (real_of_int \<lfloor>log 2 \<bar>x\<bar>\<rfloor> - 52);
               f = \<lfloor>x / q\<rfloor>;
               d = x / q - real_of_int f
           in q * real_of_int (if d < 1 / 2 then f
                               else if 1 / 2 < d then f + 1
                               else if even f then f else f + 1))"

text \<open>
  \<^verbatim>\<open>math.sqrt\<close> at an \<^verbatim>\<open>int\<close>.  The argument is converted to a double first: an
  integer that rounds beyond the largest double, which is one from
  \<open>2 ^ 1024 - 2 ^ 970\<close> on, raises \<^verbatim>\<open>OverflowError\<close>.  A negative argument raises
  \<^verbatim>\<open>ValueError\<close>.  Otherwise the result is the double nearest to the square root of
  the converted argument.
\<close>

definition math_sqrt :: "int \<Rightarrow> pyerror + real" where
  "math_sqrt k =
     (if 2 ^ 1024 - 2 ^ 970 \<le> k then Inl OverflowError
      else if k < 0 then Inl ValueError
      else Inr (round_double (sqrt (round_double (real_of_int k)))))"

text \<open>
  \<^verbatim>\<open>MorphDb.maturity\<close>:
  \<^verbatim>\<open>math.sqrt(sum(getattr(loc, 'maturity', 1) ** 2 for loc in self.db[m]))\<close>.  The sum
  is a sum of Python integers, which is exact.
\<close>

definition maturity :: "store \<Rightarrow> nat mdict \<Rightarrow> Morpheme \<Rightarrow> pyerror + real" where
  "maturity st db m =
     (case dict_get db m of
        None \<Rightarrow> Inl KeyError
      | Some s \<Rightarrow> math_sqrt (\<Sum>l\<in>sets st s. (getattr maturity_attr (obj_val l) 1)\<^sup>2))"

section \<open>The extraction cache and the replacement rules\<close>

text \<open>
  What \<^verbatim>\<open>getMorphemes\<close> and \<^verbatim>\<open>importFile\<close> take from outside this module:
  \<^item> \<open>ReplaceRules\<close> is the answer of \<^verbatim>\<open>jcfg('ReplaceRules')\<close>: \<^const>\<open>None\<close> or a
    list of rules \<open>(filter_tags, regex, morphemes)\<close>;
  \<^item> \<open>re_split regex expression\<close> is the list that
    \<^verbatim>\<open>re.split(regex, expression, maxsplit=1, flags=re.UNICODE)\<close> returns;
  \<^item> \<open>readlines path\<close> is the outcome of \<^verbatim>\<open>codecs.open(path, 'r', 'utf-8')\<close> followed by
    \<^verbatim>\<open>f.readlines()\<close>: the decoded lines, or the exception that the two calls raise.

  A pattern that does not compile, an exception raised by the morphemizer and a failure
  to write the cache file are outside the model; \<^verbatim>\<open>assert\<close> statements are executed.
\<close>

type_synonym rule = "string list \<times> string \<times> string list"

record environment =
  ReplaceRules :: "rule list option"
  re_split :: "string \<Rightarrow> string \<Rightarrow> string list"
  readlines :: "string \<Rightarrow> pyerror + string list"

text \<open>
  A morphemizer: its description and its analysis of an expression.  The analysis may
  answer Python's \<^verbatim>\<open>None\<close>, which \<^verbatim>\<open>getMorphemes\<close> tests for.
\<close>

record Morphemizer =
  getDescription :: string
  getMorphemesFromExpr :: "string \<Rightarrow> Morpheme list option"

text \<open>
  The memoized \<^verbatim>\<open>MorphCache\<close> instance with the module's global counter \<^verbatim>\<open>n\<close>:
  \<open>cache\<close> is the dict \<^verbatim>\<open>morphCacheDB.cache\<close>, \<open>global_n\<close> the counter and \<open>disk\<close> what
  the file \<^verbatim>\<open>morph_cache.db\<close> holds (\<^const>\<open>None\<close> before the first save).
\<close>

type_synonym morph_cache = "string \<times> string \<rightharpoonup> Morpheme list"

record cache_state =
  cache :: morph_cache
  global_n :: int
  disk :: "morph_cache option"

text \<open>\<^verbatim>\<open>MorphCache.save\<close> dumps the whole cache to the file.\<close>

definition save :: "cache_state \<Rightarrow> cache_state" where
  "save mc = mc\<lparr>disk := Some (cache mc)\<rparr>"

text \<open>
  The last lines of \<^verbatim>\<open>getMorphemes\<close>, from \<^verbatim>\<open>if ms is not None:\<close> on: the result is
  stored, \<^verbatim>\<open>n\<close> is incremented and the cache is saved when \<^verbatim>\<open>n % 100 == 0\<close>.
\<close>

definition cache_store :: "cache_state \<Rightarrow> string \<times> string \<Rightarrow> Morpheme list option \<Rightarrow> cache_state" where
  "cache_store mc morph_key ms =
     (case ms of
        None \<Rightarrow> mc
      | Some v \<Rightarrow>
          (let mc1 = mc\<lparr>cache := (cache mc)(morph_key \<mapsto> v), global_n := global_n mc + 1\<rparr>
           in if global_n mc1 mod 100 = 0 then save mc1 else mc1))"

text \<open>
  The body of the \<^verbatim>\<open>for\<close> loop over the replacement rules, up to the point where a rule
  is applied.  Every test of the body depends on the rule and on the expression only, so
  the loop is a scan for the first rule that passes all of them: \<open>Applies a morphemes c\<close>
  with the two spans of the split, \<open>NoRule\<close> when the loop ends without \<^verbatim>\<open>break\<close>, and
  \<open>AssertFails\<close> when \<^verbatim>\<open>assert(len(splitted_expression) == 2)\<close> fails.
\<close>

datatype scan = Applies string "string list" string | NoRule | AssertFails

fun scan_rules :: "(string \<Rightarrow> string \<Rightarrow> string list) \<Rightarrow> rule list \<Rightarrow> string set \<Rightarrow> string \<Rightarrow> scan" where
  "scan_rules split [] note_tags_set expression = NoRule"
| "scan_rules split ((filter_tags, regex, morphemes) # replace_rules) note_tags_set expression =
     (if \<not> set filter_tags \<subseteq> note_tags_set
        then scan_rules split replace_rules note_tags_set expression
      else let splitted_expression = split regex expression in
        if length splitted_expression = 1
          then scan_rules split replace_rules note_tags_set expression
        else if length splitted_expression \<noteq> 2 then AssertFails
        else if length (splitted_expression ! 0) \<ge> length expression
          then scan_rules split replace_rules note_tags_set expression
        else if length (splitted_expression ! 1) \<ge> length expression
          then scan_rules split replace_rules note_tags_set expression
        else Applies (splitted_expression ! 0) morphemes (splitted_expression ! 1))"

text \<open>
  \<^verbatim>\<open>a_morphs + b_morphs + c_morphs\<close>; adding \<^verbatim>\<open>None\<close> to a list raises
  \<^verbatim>\<open>TypeError\<close>.
\<close>

definition concat3 ::
  "Morpheme list option \<Rightarrow> Morpheme list \<Rightarrow> Morpheme list option \<Rightarrow> pyerror + Morpheme list" where
  "concat3 a_morphs b_morphs c_morphs =
     (case a_morphs of
        None \<Rightarrow> Inl TypeError
      | Some a \<Rightarrow> (case c_morphs of None \<Rightarrow> Inl TypeError | Some c \<Rightarrow> Inr (a @ b_morphs @ c)))"

text \<open>
  \<^verbatim>\<open>getMorphemes(morphemizer, expression, note_tags=None)\<close>.  The result is the raised
  exception or the returned value, together with the cache state after the call.

  In the source the \<^verbatim>\<open>else\<close> that calls \<^verbatim>\<open>morphemizer.getMorphemesFromExpr\<close> is
  indented like the \<^verbatim>\<open>if\<close> on \<^verbatim>\<open>note_tags\<close> and \<^verbatim>\<open>replace_rules\<close>, one level
  less than the \<^verbatim>\<open>for\<close>: it belongs to the \<^verbatim>\<open>if\<close>.  So when the loop ends without
  \<^verbatim>\<open>break\<close> the name \<^verbatim>\<open>ms\<close> was never assigned, and reading it in
  \<^verbatim>\<open>if ms is not None\<close> raises \<^verbatim>\<open>UnboundLocalError\<close>.
\<close>

function getMorphemes ::
  "environment \<Rightarrow> Morphemizer \<Rightarrow> cache_state \<Rightarrow> string \<Rightarrow> string list option
     \<Rightarrow> (pyerror + Morpheme list option) \<times> cache_state" where
  "getMorphemes ev morphemizer mc expression note_tags =
     (case cache mc (getDescription morphemizer, expression) of
        Some ms \<Rightarrow> (Inr (Some ms), mc)
      | None \<Rightarrow>
          (if note_tags \<noteq> None \<and> ReplaceRules ev \<noteq> None then
             (case scan_rules (re_split ev) (the (ReplaceRules ev)) (set (the note_tags)) expression of
                AssertFails \<Rightarrow> (Inl AssertionError, mc)
              | NoRule \<Rightarrow> (Inl UnboundLocalError, mc)
              | Applies a morphemes c \<Rightarrow>
                  (case getMorphemes ev morphemizer mc a note_tags of
                     (Inl e, mc1) \<Rightarrow> (Inl e, mc1)
                   | (Inr a_morphs, mc1) \<Rightarrow>
                       (case getMorphemes ev morphemizer mc1 c note_tags of
                          (Inl e, mc2) \<Rightarrow> (Inl e, mc2)
                        | (Inr c_morphs, mc2) \<Rightarrow>
                            (case concat3 a_morphs
                                    (map (\<lambda>mstr. Morpheme_init mstr mstr ''UNKNOWN'' ''UNKNOWN'' mstr)
                                       morphemes)
                                    c_morphs of
                               Inl e \<Rightarrow> (Inl e, mc2)
                             | Inr ms \<Rightarrow>
                                 (Inr (Some ms),
                                  cache_store mc2 (getDescription morphemizer, expression) (Some ms))))))
           else
             (let ms = getMorphemesFromExpr morphemizer expression
              in (Inr ms, cache_store mc (getDescription morphemizer, expression) ms))))"
  by pat_completeness auto
termination
proof -
  have shorter: "length a < length e \<and> length c < length e"
    if "scan_rules split rules tags e = Applies a ms c" for split rules tags e a ms c
    using that by (induction rules) (auto simp: Let_def split: if_splits)
  show ?thesis
    by (relation "measure (\<lambda>(ev, mz, mc, e, t). length e)") (auto dest: shorter)
qed

declare getMorphemes.simps [simp del]

section \<open>Import of a text file\<close>

text \<open>
  \<^verbatim>\<open>str.strip()\<close> removes the whitespace at both ends.  Of the characters below 256,
  Python's \<^verbatim>\<open>str.isspace\<close> holds for 9 to 13, 28 to 32, 133 and 160.
\<close>

definition isspace :: "char \<Rightarrow> bool" where
  "isspace ch =
     (let k = (of_char ch :: nat) in (9 \<le> k \<and> k \<le> 13) \<or> (28 \<le> k \<and> k \<le> 32) \<or> k = 133 \<or> k = 160)"

definition strip :: "string \<Rightarrow> string" where
  "strip s = rev (dropWhile isspace (rev (dropWhile isspace s)))"

text \<open>
  The generator \<^verbatim>\<open>( m, TextFile( path, i+1, maturity ) ) for m in ms\<close> builds one new
  \<^verbatim>\<open>TextFile\<close> object for every morpheme.  \<^verbatim>\<open>addMLs\<close> consumes it pair by pair;
  building a location touches only the next identity and inserting it only the set
  objects, so the model builds the pairs first and inserts them afterwards.
\<close>

fun new_locs :: "store \<Rightarrow> Location \<Rightarrow> Morpheme list \<Rightarrow> (Morpheme \<times> loc_obj) list \<times> store" where
  "new_locs st v [] = ([], st)"
| "new_locs st v (m # ms) =
     (case new_loc st v of (l, st1) \<Rightarrow>
        (case new_locs st1 v ms of (mls, st2) \<Rightarrow> ((m, l) # mls, st2)))"

text \<open>
  The loop \<^verbatim>\<open>for i,line in enumerate(inp)\<close> of \<^verbatim>\<open>MorphDb.importFile\<close>.
  \<^verbatim>\<open>getMorphemes\<close> is called without \<^verbatim>\<open>note_tags\<close>.  An exception leaves the loop
  with the state reached so far; iterating over \<^verbatim>\<open>None\<close> raises \<^verbatim>\<open>TypeError\<close>.
\<close>

fun importFile_loop ::
  "environment \<Rightarrow> Morphemizer \<Rightarrow> string \<Rightarrow> int \<Rightarrow> cache_state \<Rightarrow> store \<Rightarrow> nat mdict
     \<Rightarrow> (nat \<times> string) list \<Rightarrow> pyerror option \<times> cache_state \<times> store \<times> nat mdict" where
  "importFile_loop ev morphemizer path maturity' mc st db [] = (None, mc, st, db)"
| "importFile_loop ev morphemizer path maturity' mc st db ((i, line) # inp) =
     (case getMorphemes ev morphemizer mc (strip line) None of
        (Inl e, mc1) \<Rightarrow> (Some e, mc1, st, db)
      | (Inr None, mc1) \<Rightarrow> (Some TypeError, mc1, st, db)
      | (Inr (Some ms), mc1) \<Rightarrow>
          (case new_locs st (TextFile_init path (int i + 1) maturity' None) ms of (mls, st1) \<Rightarrow>
             (case addMLs st1 db mls of (st2, db2) \<Rightarrow>
                importFile_loop ev morphemizer path maturity' mc1 st2 db2 inp)))"

text \<open>
  \<^verbatim>\<open>MorphDb.importFile(self, path, morphemizer, maturity=0)\<close>: the whole file is read
  and decoded before the loop starts.  The first component of the result is the exception
  the call raises, \<^const>\<open>None\<close> when it returns.
\<close>

definition importFile ::
  "environment \<Rightarrow> Morphemizer \<Rightarrow> cache_state \<Rightarrow> store \<Rightarrow> nat mdict \<Rightarrow> string \<Rightarrow> int option
     \<Rightarrow> pyerror option \<times> cache_state \<times> store \<times> nat mdict" where
  "importFile ev morphemizer mc st db path maturity' =
     (case readlines ev path of
        Inl e \<Rightarrow> (Some e, mc, st, db)
      | Inr inp \<Rightarrow>
          importFile_loop ev morphemizer path (case maturity' of None \<Rightarrow> 0 | Some v \<Rightarrow> v)
            mc st db (enumerate 0 inp))"

section \<open>Notions used to state the properties\<close>

text \<open>A Python dict never holds two equal keys.\<close>

fun dict_ok :: "'v mdict \<Rightarrow> bool" where
  "dict_ok [] = True"
| "dict_ok ((k, v) # d) = (dict_get d k = None \<and> dict_ok d)"

text \<open>The set objects of a dict are allocated.\<close>

definition allocated :: "store \<Rightarrow> nat mdict \<Rightarrow> bool" where
  "allocated st db = list_all (\<lambda>(k, s). s < next_set st) db"

text \<open>
  No set object is stored under two different morphemes: two entries with the same set
  object have equal keys.  The entries may come from several databases.
\<close>

definition sets_keyed :: "nat mdict \<Rightarrow> bool" where
  "sets_keyed entries =
     list_all (\<lambda>(k, s). list_all (\<lambda>(k', s'). s = s' \<longrightarrow> Morpheme_eq k k') entries) entries"

text \<open>
  The locations a database holds for a morpheme: the contents of the set object of its
  key, \<^const>\<open>None\<close> when the morpheme is no key.
\<close>

definition db_lookup :: "store \<Rightarrow> nat mdict \<Rightarrow> Morpheme \<Rightarrow> loc_obj set option" where
  "db_lookup st db m = map_option (sets st) (dict_get db m)"

definition locs_of :: "store \<Rightarrow> nat mdict \<Rightarrow> Morpheme \<Rightarrow> loc_obj set" where
  "locs_of st db m = (case dict_get db m of None \<Rightarrow> {} | Some s \<Rightarrow> sets st s)"




section \<open>Values used in the examples\<close>

text \<open>
  The base class \<^verbatim>\<open>Morphemizer\<close> of morph/morphemizer.py: its analysis is the empty list
  and its description the string below.
\<close>

definition Morphemizer_base :: Morphemizer where
  "Morphemizer_base =
     \<lparr>getDescription = ''No information availiable'',
      getMorphemesFromExpr = (\<lambda>expression. Some [])\<rparr>"


text \<open>The cache of a new profile: no entry, no write, no file.\<close>

definition empty_cache :: cache_state where
  "empty_cache = \<lparr>cache = Map.empty, global_n = 0, disk = None\<rparr>"

text \<open>
  Three rules, none of which applies to the expression \<^verbatim>\<open>ab\<close> of a note tagged
  \<^verbatim>\<open>tagY\<close>: the first asks for the tag \<^verbatim>\<open>tagX\<close>, the regex \<^verbatim>\<open>z\<close> of the second
  does not match, and \<^verbatim>\<open>x*\<close> matches the empty string at the start, so that
  \<^verbatim>\<open>re.split\<close> answers the empty string and the whole expression.
\<close>

definition rules_env :: environment where
  "rules_env =
     \<lparr>ReplaceRules = Some [([''tagX''], ''q'', [''Q'']), ([], ''z'', [''Z'']), ([], ''x*'', [''X''])],
      re_split = (\<lambda>regex expression. if regex = ''x*'' then ['''', expression] else [expression]),
      readlines = (\<lambda>path. Inl IOError)\<rparr>"

text \<open>
  One rule whose regex \<^verbatim>\<open>.*\<close> matches the whole of an expression without line break:
  \<^verbatim>\<open>re.split\<close> answers two empty strings.
\<close>

definition whole_match_env :: environment where
  "whole_match_env =
     \<lparr>ReplaceRules = Some [([], ''.*'', [''W''])],
      re_split = (\<lambda>regex expression. if regex = ''.*'' then ['''', ''''] else [expression]),
      readlines = (\<lambda>path. Inl IOError)\<rparr>"

text \<open>
  A morphemizer that answers one morpheme made of the expression, as
  \<^verbatim>\<open>SpaceMorphemizer\<close> of morph/morphemizer.py does on an expression that is one word.
\<close>

definition word_morphemizer :: Morphemizer where
  "word_morphemizer =
     \<lparr>getDescription = ''Language with spaces'',
      getMorphemesFromExpr =
        (\<lambda>expression. Some [Morpheme_init expression expression ''UNKNOWN'' ''UNKNOWN'' expression])\<rparr>"

text \<open>
  No replacement rules and two files: \<^verbatim>\<open>a.txt\<close> with the lines \<^verbatim>\<open>inu\<close> and
  \<^verbatim>\<open>neko\<close>, and \<^verbatim>\<open>latin1.txt\<close> whose bytes are not UTF-8.
\<close>

definition file_env :: environment where
  "file_env =
     \<lparr>ReplaceRules = None,
      re_split = (\<lambda>regex expression. [expression]),
      readlines =
        (\<lambda>path. if path = ''a.txt'' then Inr [''inu'' @ [CHR 0x0A], ''neko'' @ [CHR 0x0A]]
                 else if path = ''latin1.txt'' then Inl UnicodeDecodeError
                 else Inl IOError)\<rparr>"

definition empty_store :: store where
  "empty_store = \<lparr>sets = (\<lambda>a. {}), next_set = 0, next_id = 0\<rparr>"

definition m_inu :: Morpheme where
  "m_inu = Morpheme_init ''inu'' ''inu'' ''UNKNOWN'' ''UNKNOWN'' ''inu''"

definition m_neko :: Morpheme where
  "m_neko = Morpheme_init ''neko'' ''neko'' ''UNKNOWN'' ''UNKNOWN'' ''neko''"

text \<open>The object with identity \<open>ident\<close> built by \<^verbatim>\<open>TextFile('a.txt', lineNo, 0)\<close>.\<close>

definition line_loc :: "nat \<Rightarrow> int \<Rightarrow> loc_obj" where
  "line_loc ident lineNo = \<lparr>obj_id = ident, obj_val = TextFile ''a.txt'' lineNo 0 1\<rparr>"

text \<open>
  The store after \<^verbatim>\<open>a.txt\<close> was imported into two empty databases, and the two
  databases: \<open>first_db\<close> and \<open>second_db\<close> hold the same morphemes at locations of the same
  attribute values, each at objects of its own.  \<open>third_db\<close> holds a part of \<open>second_db\<close>.
\<close>

definition twice_store :: store where
  "twice_store =
     \<lparr>sets = (\<lambda>a. {})(0 := {line_loc 0 1}, 1 := {line_loc 1 2}, 2 := {line_loc 2 1}, 3 := {line_loc 3 2}),
      next_set = 4, next_id = 4\<rparr>"

definition first_db :: "nat mdict" where
  "first_db = [(m_inu, 0), (m_neko, 1)]"

definition second_db :: "nat mdict" where
  "second_db = [(m_inu, 2), (m_neko, 3)]"

definition third_db :: "nat mdict" where
  "third_db = [(m_inu, 2)]"

text \<open>
  Two databases over \<open>twice_store\<close>.  \<open>shared_db\<close> holds one set object under two
  morphemes, as \<^verbatim>\<open>db.addMLs1(neko, db.db[inu])\<close> leaves it; \<open>inu_db\<close> holds one morpheme
  at a set object of its own.
\<close>

definition inu_db :: "nat mdict" where
  "inu_db = [(m_inu, 0)]"

definition shared_db :: "nat mdict" where
  "shared_db = [(m_inu, 1), (m_neko, 1)]"

text \<open>The morphemes above with another inflected form.\<close>

definition m_inus :: Morpheme where
  "m_inus = Morpheme_init ''inu'' ''inus'' ''UNKNOWN'' ''UNKNOWN'' ''inu''"

definition m_nekos :: Morpheme where
  "m_nekos = Morpheme_init ''neko'' ''nekos'' ''UNKNOWN'' ''UNKNOWN'' ''neko''"

section \<open>Locations: attributes and defaults\<close>

lemma py_max_Max: "xs \<noteq> [] \<Longrightarrow> py_max xs = Max (set xs)"
  by (cases xs) (simp_all add: py_max_def Max.set_eq_fold del: set_simps)

text \<open>
  Claim C7, as the code has it.  Each of the four location classes gives its instances a
  \<^verbatim>\<open>maturity\<close> and a \<^verbatim>\<open>weight\<close>.  A \<^verbatim>\<open>TextFile\<close> or an \<^verbatim>\<open>AnkiDeck\<close> built
  without a weight has weight 1, a \<^verbatim>\<open>Nowhere\<close> built without a weight has weight 0, and
  a \<^verbatim>\<open>Corpus\<close> cannot be built without a weight.  The maturity of an \<^verbatim>\<open>AnkiDeck\<close> is
  the maximum of its list of maturities, and 0 when the list is empty.
\<close>

theorem location_attributes:
  "maturity_attr (Nowhere_init mo wo) \<noteq> None \<and> weight_attr (Nowhere_init mo wo) \<noteq> None
   \<and> (\<forall>l. Corpus_init name wo = Inr l \<longrightarrow> maturity_attr l \<noteq> None \<and> weight_attr l \<noteq> None)
   \<and> maturity_attr (TextFile_init filePath lineNo mat wo) \<noteq> None
   \<and> weight_attr (TextFile_init filePath lineNo mat wo) \<noteq> None
   \<and> maturity_attr (AnkiDeck_init noteId fieldName fieldValue guid maturities wo) \<noteq> None
   \<and> weight_attr (AnkiDeck_init noteId fieldName fieldValue guid maturities wo) \<noteq> None
   \<and> weight_attr (TextFile_init filePath lineNo mat None) = Some 1
   \<and> weight_attr (AnkiDeck_init noteId fieldName fieldValue guid maturities None) = Some 1
   \<and> weight_attr (Nowhere_init mo None) = Some 0
   \<and> Corpus_init name None = Inl TypeError
   \<and> maturity_attr (AnkiDeck_init noteId fieldName fieldValue guid maturities wo)
       = Some (if maturities = [] then 0 else Max (set maturities))"
  by (auto simp: Nowhere_init_def Corpus_init_def TextFile_init_def AnkiDeck_init_def py_max_Max
      split: option.splits)

text \<open>An instance of the theorem with a \<^verbatim>\<open>Corpus\<close> that is built.\<close>

theorem location_attributes_witness:
  "Corpus_init ''freq'' (Some 3) = Inr (Corpus ''freq'' 0 3)
   \<and> maturity_attr (Corpus ''freq'' 0 3) = Some 0 \<and> weight_attr (Corpus ''freq'' 0 3) = Some 3
   \<and> maturity_attr (AnkiDeck_init 7 ''Expression'' ''x'' ''g'' [3, 21, 5] None) = Some 21"
  using location_attributes [of None "Some 3" "''freq''" "''f''" 1 0 7 "''Expression''" "''x''" "''g''" "[3, 21, 5]"]
  by (simp add: Corpus_init_def AnkiDeck_init_def Nowhere_init_def TextFile_init_def)

text \<open>
  Claim C7 as it is written says that every variant built without a weight has weight 1.
  \<^verbatim>\<open>Nowhere()\<close> has weight 0.
\<close>

theorem nowhere_default_weight_counterexample:
  "weight_attr (Nowhere_init None None) = Some 0 \<and> weight_attr (Nowhere_init None None) \<noteq> Some 1"
  by (simp add: Nowhere_init_def)

section \<open>Maturity of a morpheme\<close>

lemma sum_distinct_list:
  "distinct ls \<Longrightarrow> (\<Sum>l\<in>set ls. f l) = sum_list (map f ls)"
  by (simp add: sum_list_distinct_conv_sum_set)

text \<open>A natural number below \<open>2 ^ 53\<close> is a double.\<close>

lemma round_double_int:
  assumes "0 \<le> i" and "i < 2 ^ 53"
  shows "round_double (real_of_int i) = real_of_int i"
proof (cases "i = 0")
  case True
  then show ?thesis by (simp add: round_double_def)
next
  case False
  with assms have pos: "0 < i" by simp
  define e where "e = \<lfloor>log 2 \<bar>real_of_int i\<bar>\<rfloor>"
  have "log 2 (real_of_int i) < 53"
    using log_less_iff [of 2 "real_of_int i" 53] pos assms(2) by simp
  then have e52: "e \<le> 52"
    unfolding e_def using pos by (simp add: floor_le_iff)
  define k where "k = nat (52 - e)"
  have "real_of_int e - 52 = - real k"
    using e52 by (simp add: k_def)
  then have q: "2 powr (real_of_int e - 52) = inverse (2 ^ k)"
    by (simp add: powr_minus powr_realpow)
  have n: "real_of_int i / inverse (2 ^ k) = real_of_int (i * 2 ^ k)"
    by (simp add: field_simps)
  show ?thesis
    using False pos unfolding round_double_def e_def [symmetric] q Let_def n
    by (simp add: field_simps)
qed

text \<open>The square root of a square below \<open>2 ^ 53\<close> is exact.\<close>

lemma math_sqrt_square:
  assumes "0 \<le> r" and "r\<^sup>2 < 2 ^ 53"
  shows "math_sqrt (r\<^sup>2) = Inr (real_of_int r)"
proof -
  have "r \<le> r\<^sup>2"
    using assms(1) by (simp add: power2_eq_square mult_le_cancel_left1 self_le_power)
  with assms(2) have small: "r < 2 ^ 53"
    by linarith
  have big: "\<not> (2 ^ 1024 - 2 ^ 970 \<le> r\<^sup>2)"
    using assms(2) by simp
  have "round_double (real_of_int (r\<^sup>2)) = real_of_int (r\<^sup>2)"
    using assms(2) by (intro round_double_int) simp_all
  moreover have "sqrt (real_of_int (r\<^sup>2)) = real_of_int r"
    using assms(1) by simp
  ultimately show ?thesis
    using big round_double_int [OF assms(1) small] by (simp add: math_sqrt_def)
qed

text \<open>
  Rounding a positive real \<open>x\<close> with \<open>2 ^ e \<le> x < 2 ^ (e + 1)\<close> that lies less than
  half a step above the multiple \<open>f\<close> of the step \<open>2 ^ (e - 52)\<close>.
\<close>

lemma round_double_at:
  assumes "0 < x" and "2 ^ e \<le> x" and "x < 2 ^ Suc e"
    and "real_of_int f \<le> x / 2 powr (real e - 52)"
    and "x / 2 powr (real e - 52) < real_of_int f + 1 / 2"
  shows "round_double x = 2 powr (real e - 52) * real_of_int f"
proof -
  have "\<lfloor>log 2 x\<rfloor> = int e"
    using assms(1,2,3) floor_log_eq_powr_iff [of x 2 "int e"]
    by (simp add: powr_realpow powr_add)
  then have l: "\<lfloor>log 2 \<bar>x\<bar>\<rfloor> = int e"
    using assms(1) by simp
  define n where "n = x / 2 powr (real e - 52)"
  have a4: "real_of_int f \<le> n" and a5: "n < real_of_int f + 1 / 2"
    using assms(4,5) unfolding n_def .
  have fl: "\<lfloor>n\<rfloor> = f"
    using a4 a5 by (intro floor_unique) linarith+
  have d: "n - real_of_int f < 1 / 2"
    using a5 by linarith
  have c: "real_of_int (int e) = real e"
    by simp
  show ?thesis
    unfolding round_double_def Let_def l c n_def [symmetric] fl using assms(1) d by simp
qed

text \<open>
  \<^verbatim>\<open>math.sqrt((2 ** 53 + 1) ** 2)\<close> is \<^verbatim>\<open>9007199254740992.0\<close>, which is \<open>2 ^ 53\<close>:
  the argument is rounded to \<open>2 ^ 106 + 2 ^ 54\<close>, whose square root lies between
  \<open>2 ^ 53\<close> and \<open>2 ^ 53 + 1\<close>, where the doubles are the even integers.
\<close>

lemma math_sqrt_rounded:
  "math_sqrt ((2 ^ 53 + 1)\<^sup>2) = Inr (2 ^ 53)"
proof -
  let ?k = "(2 ^ 53 + 1)\<^sup>2 :: int"
  have k: "real_of_int ?k = 2 ^ 106 + 2 ^ 54 + 1"
    by (simp add: power2_eq_square)
  have q1: "2 powr (real 106 - 52) = (2 ^ 54 :: real)"
    using powr_realpow [of "2::real" 54] by simp
  have "round_double (2 ^ 106 + 2 ^ 54 + 1) = 2 powr (real 106 - 52) * real_of_int (2 ^ 52 + 1)"
    by (rule round_double_at) (simp_all add: q1)
  then have r1: "round_double (real_of_int ?k) = 2 ^ 106 + 2 ^ 54"
    unfolding k q1 by simp
  let ?y = "2 ^ 106 + 2 ^ 54 :: real"
  have lo: "2 ^ 53 \<le> sqrt ?y"
    by (rule real_le_rsqrt) simp
  have hi: "sqrt ?y < 2 ^ 53 + 1"
    by (rule real_less_lsqrt) (simp_all add: power2_eq_square)
  have q2: "2 powr (real 53 - 52) = (2 :: real)"
    by simp
  have "round_double (sqrt ?y) = 2 powr (real 53 - 52) * real_of_int (2 ^ 52)"
    using lo hi by (intro round_double_at) (simp_all add: q2)
  then have r2: "round_double (sqrt ?y) = 2 ^ 53"
    unfolding q2 by simp
  have big: "\<not> (2 ^ 1024 - 2 ^ 970 \<le> ?k)"
    by simp
  show ?thesis
    using big r1 r2 unfolding math_sqrt_def by simp
qed

text \<open>
  Claim C6, as the code has it.  For a morpheme that is a key of the database,
  \<^verbatim>\<open>maturity(m)\<close> is \<^verbatim>\<open>math.sqrt\<close> of the sum of the squares of the maturities of its
  locations, one summand for each location object of the set (\<open>ls\<close> lists them once
  each), with 1 for a location that has no \<^verbatim>\<open>maturity\<close> attribute.  A sum from
  \<open>2 ^ 1024 - 2 ^ 970\<close> on raises \<^verbatim>\<open>OverflowError\<close>; a smaller sum is rounded to a
  double and the result is the double nearest to the square root of that.  The result is
  the Euclidean norm itself when the sum is a square below \<open>2 ^ 53\<close>: for two locations
  of maturities 3 and 4 it is 5, neither 7 nor 4.
\<close>

theorem maturity_euclidean_norm:
  assumes "dict_get db m = Some s" and "distinct ls" and "set ls = sets st s"
  shows "(2 ^ 1024 - 2 ^ 970 \<le> (\<Sum>v\<leftarrow>map (\<lambda>l. getattr maturity_attr (obj_val l) 1) ls. v\<^sup>2)
              \<longrightarrow> maturity st db m = Inl OverflowError)
         \<and> ((\<Sum>v\<leftarrow>map (\<lambda>l. getattr maturity_attr (obj_val l) 1) ls. v\<^sup>2) < 2 ^ 1024 - 2 ^ 970
              \<longrightarrow> maturity st db m
                    = Inr (round_double (sqrt (round_double (real_of_int
                        (\<Sum>v\<leftarrow>map (\<lambda>l. getattr maturity_attr (obj_val l) 1) ls. v\<^sup>2))))))
         \<and> (\<forall>r. 0 \<le> r \<and> r\<^sup>2 < 2 ^ 53
                 \<and> (\<Sum>v\<leftarrow>map (\<lambda>l. getattr maturity_attr (obj_val l) 1) ls. v\<^sup>2) = r\<^sup>2
              \<longrightarrow> maturity st db m = Inr (real_of_int r))
         \<and> (map (\<lambda>l. maturity_attr (obj_val l)) ls = [Some 3, Some 4]
              \<longrightarrow> maturity st db m = Inr 5 \<and> maturity st db m \<noteq> Inr 7 \<and> maturity st db m \<noteq> Inr 4)"
proof -
  let ?S = "\<Sum>v\<leftarrow>map (\<lambda>l. getattr maturity_attr (obj_val l) 1) ls. v\<^sup>2"
  have eq: "(\<Sum>l\<in>sets st s. (getattr maturity_attr (obj_val l) 1)\<^sup>2) = ?S"
    using assms(2,3) sum_distinct_list [of ls "\<lambda>l. (getattr maturity_attr (obj_val l) 1)\<^sup>2"]
    by (simp add: comp_def)
  have first: "maturity st db m = math_sqrt ?S"
    using assms(1) eq by (simp add: maturity_def)
  have nonneg: "0 \<le> ?S"
    by (rule sum_list_nonneg) auto
  have over: "maturity st db m = Inl OverflowError" if "2 ^ 1024 - 2 ^ 970 \<le> ?S"
    using that first by (simp add: math_sqrt_def)
  have rounded: "maturity st db m = Inr (round_double (sqrt (round_double (real_of_int ?S))))"
    if "?S < 2 ^ 1024 - 2 ^ 970"
    using that first nonneg by (simp add: math_sqrt_def)
  have exact: "maturity st db m = Inr (real_of_int r)"
    if "0 \<le> r \<and> r\<^sup>2 < 2 ^ 53 \<and> ?S = r\<^sup>2" for r
    using that first math_sqrt_square [of r] by simp
  have "maturity st db m = Inr 5"
    if "map (\<lambda>l. maturity_attr (obj_val l)) ls = [Some 3, Some 4]"
  proof -
    from that obtain l1 l2 where ls: "ls = [l1, l2]"
      and a: "maturity_attr (obj_val l1) = Some 3" "maturity_attr (obj_val l2) = Some 4"
      by (auto simp: map_eq_Cons_conv)
    have "?S = 5\<^sup>2"
      using a by (simp add: ls getattr_def)
    then show ?thesis
      using exact [of 5] by simp
  qed
  with over rounded exact show ?thesis
    by auto
qed

text \<open>The theorem at a database with one morpheme seen at two locations of maturities 3 and 4.\<close>

theorem maturity_euclidean_norm_witness:
  "dict_get [(Morpheme_init ''aruku'' ''arui'' ''verb'' ''free'' ''ARUI'', 0)]
       (Morpheme_init ''aruku'' ''arui'' ''verb'' ''free'' ''ARUI'') = Some (0::nat)
   \<and> distinct [\<lparr>obj_id = 0, obj_val = Nowhere 3 0\<rparr>, \<lparr>obj_id = 1, obj_val = TextFile ''f'' 1 4 1\<rparr>]
   \<and> map (\<lambda>l. maturity_attr (obj_val l))
        [\<lparr>obj_id = 0, obj_val = Nowhere 3 0\<rparr>, \<lparr>obj_id = 1, obj_val = TextFile ''f'' 1 4 1\<rparr>]
       = [Some 3, Some 4]
   \<and> maturity
        \<lparr>sets = (\<lambda>a. {})(0 := {\<lparr>obj_id = 0, obj_val = Nowhere 3 0\<rparr>,
                                \<lparr>obj_id = 1, obj_val = TextFile ''f'' 1 4 1\<rparr>}),
         next_set = 1, next_id = 2\<rparr>
        [(Morpheme_init ''aruku'' ''arui'' ''verb'' ''free'' ''ARUI'', 0)]
        (Morpheme_init ''aruku'' ''arui'' ''verb'' ''free'' ''ARUI'') = Inr 5"
proof -
  let ?m = "Morpheme_init ''aruku'' ''arui'' ''verb'' ''free'' ''ARUI''"
  let ?ls = "[\<lparr>obj_id = 0, obj_val = Nowhere 3 0\<rparr>, \<lparr>obj_id = 1, obj_val = TextFile ''f'' 1 4 1\<rparr>]"
  let ?st = "\<lparr>sets = (\<lambda>a. {})(0 := {\<lparr>obj_id = 0, obj_val = Nowhere 3 0\<rparr>,
                                \<lparr>obj_id = 1, obj_val = TextFile ''f'' 1 4 1\<rparr>}),
         next_set = 1, next_id = 2\<rparr>"
  have a: "dict_get [(?m, 0)] ?m = Some (0::nat)"
    by (simp add: Morpheme_eq_def)
  have b: "distinct ?ls"
    by simp
  have c: "set ?ls = sets ?st 0"
    by simp
  have d: "map (\<lambda>l. maturity_attr (obj_val l)) ?ls = [Some 3, Some 4]"
    by simp
  from maturity_euclidean_norm [OF a b c] d
  have "maturity ?st [(?m, 0)] ?m = Inr 5"
    by blast
  with a b d show ?thesis
    by blast
qed

text \<open>
  Claim C6 as it is written has \<open>2 ^ 53 + 1\<close>, the Euclidean norm, for a morpheme seen at
  one location of maturity \<open>2 ^ 53 + 1\<close>, which is what
  \<^verbatim>\<open>importFile(path, morphemizer, maturity=2 ** 53 + 1)\<close> records.  The code answers
  \<open>2 ^ 53\<close>.
\<close>

theorem maturity_rounded_counterexample:
  "maturity
     \<lparr>sets = (\<lambda>a. {})(0 := {\<lparr>obj_id = 0, obj_val = TextFile ''f'' 1 (2 ^ 53 + 1) 1\<rparr>}),
      next_set = 1, next_id = 1\<rparr>
     [(Morpheme_init ''aruku'' ''arui'' ''verb'' ''free'' ''ARUI'', 0)]
     (Morpheme_init ''aruku'' ''arui'' ''verb'' ''free'' ''ARUI'') = Inr (2 ^ 53)
   \<and> sqrt (real_of_int ((2 ^ 53 + 1)\<^sup>2)) = 2 ^ 53 + 1
   \<and> (2 ^ 53 :: real) \<noteq> 2 ^ 53 + 1"
  using math_sqrt_rounded by (simp add: maturity_def Morpheme_eq_def getattr_def)

text \<open>
  A morpheme seen at one location of maturity \<open>10 ^ 200\<close>: the sum of the squares is too
  large for a double and the call raises \<^verbatim>\<open>OverflowError\<close>.
\<close>

lemma maturity_raises_OverflowError:
  "maturity
     \<lparr>sets = (\<lambda>a. {})(0 := {\<lparr>obj_id = 0, obj_val = TextFile ''f'' 1 (10 ^ 200) 1\<rparr>}),
      next_set = 1, next_id = 1\<rparr>
     [(Morpheme_init ''aruku'' ''arui'' ''verb'' ''free'' ''ARUI'', 0)]
     (Morpheme_init ''aruku'' ''arui'' ''verb'' ''free'' ''ARUI'') = Inl OverflowError"
  by (simp add: maturity_def math_sqrt_def Morpheme_eq_def getattr_def)

section \<open>The extraction cache\<close>

lemma scan_rules_shorter:
  "scan_rules split rules tags e = Applies a ms c \<Longrightarrow> length a < length e \<and> length c < length e"
  by (induction rules) (auto simp: Let_def split: if_splits)


lemma getMorphemes_no_rule:
  assumes "cache mc (getDescription mz, e) = None" and "tags = Some t" and "ReplaceRules ev = Some rs"
    and "scan_rules (re_split ev) rs (set t) e = NoRule"
  shows "getMorphemes ev mz mc e tags = (Inl UnboundLocalError, mc)"
  using assms by (simp add: getMorphemes.simps)




text \<open>
  With tags, rules and an empty cache every call raises: a rule that applies leads to a
  call on a shorter span, and the call where no rule applies raises.
\<close>

lemma getMorphemes_rules_raise:
  assumes "cache mc = Map.empty" and "tags \<noteq> None" and "ReplaceRules ev \<noteq> None"
  shows "getMorphemes ev mz mc e tags = (Inl UnboundLocalError, mc)
       \<or> getMorphemes ev mz mc e tags = (Inl AssertionError, mc)"
  using assms
proof (induction ev mz mc e tags rule: getMorphemes.induct)
  case (1 ev mz mc e tags)
  have miss: "cache mc (getDescription mz, e) = None"
    using "1.prems"(1) by simp
  have both: "tags \<noteq> None \<and> ReplaceRules ev \<noteq> None"
    using "1.prems"(2,3) by simp
  show ?case
  proof (cases "scan_rules (re_split ev) (the (ReplaceRules ev)) (set (the tags)) e")
    case (Applies a lits c)
    from "1.IH"(1) [OF miss both Applies "1.prems"] miss both Applies show ?thesis
      by (auto simp add: getMorphemes.simps [of ev mz mc e tags])
  next
    case NoRule
    with miss both show ?thesis by (simp add: getMorphemes.simps)
  next
    case AssertFails
    with miss both show ?thesis by (simp add: getMorphemes.simps)
  qed
qed

text \<open>
  Claim C1, at an input where the code leaves it.  The key is not cached, the note has
  tags, the configuration has three rules, and none applies: one is filtered out by its
  tags, one does not match, one is skipped by the test on the lengths.  The call raises
  \<^verbatim>\<open>UnboundLocalError\<close> and leaves the cache as it was.  The same call without
  \<^verbatim>\<open>note_tags\<close> returns the analysis of the morphemizer and stores it.
\<close>

theorem getMorphemes_no_rule_raises:
  "getMorphemes rules_env Morphemizer_base empty_cache ''ab'' (Some [''tagY''])
     = (Inl UnboundLocalError, empty_cache)
   \<and> getMorphemes rules_env Morphemizer_base empty_cache ''ab'' None
     = (Inr (getMorphemesFromExpr Morphemizer_base ''ab''),
        cache_store empty_cache (getDescription Morphemizer_base, ''ab'') (Some []))"
  by (simp add: getMorphemes.simps rules_env_def Morphemizer_base_def empty_cache_def Let_def)

text \<open>
  Claim C3, at an input where the code leaves it.  The regex of the only rule matches the
  whole expression.  On the empty expression both spans are as long as the expression, the
  rule is skipped, and the call raises \<^verbatim>\<open>UnboundLocalError\<close> where the claim has the
  analysis of the morphemizer.  On \<^verbatim>\<open>ab\<close> both spans are shorter, the rule applies, and
  the exception comes from the call on the empty span.  The recursion itself ends: the
  definition of \<^const>\<open>getMorphemes\<close> is accepted with the length of the expression as
  measure, and \<open>scan_rules_shorter\<close> is the test that makes it decrease.
\<close>

theorem getMorphemes_whole_match_raises:
  "scan_rules (re_split whole_match_env) [([], ''.*'', [''W''])] {} '''' = NoRule
   \<and> getMorphemes whole_match_env Morphemizer_base empty_cache '''' (Some [])
     = (Inl UnboundLocalError, empty_cache)
   \<and> scan_rules (re_split whole_match_env) [([], ''.*'', [''W''])] {} ''ab'' = Applies '''' [''W''] ''''
   \<and> getMorphemes whole_match_env Morphemizer_base empty_cache ''ab'' (Some [])
     = (Inl UnboundLocalError, empty_cache)"
  by (simp add: getMorphemes.simps whole_match_env_def Morphemizer_base_def empty_cache_def Let_def)





section \<open>Dicts keyed by morphemes\<close>

lemma Morpheme_eq_iff:
  "Morpheme_eq a b \<longleftrightarrow> pos a = pos b \<and> subPos a = subPos b \<and> read a = read b \<and> base a = base b"
  by (simp add: Morpheme_eq_def)

lemma Morpheme_eq_refl [simp]: "Morpheme_eq m m"
  by (simp add: Morpheme_eq_iff)

lemma Morpheme_eq_sym: "Morpheme_eq a b \<Longrightarrow> Morpheme_eq b a"
  by (simp add: Morpheme_eq_iff)

lemma Morpheme_eq_trans: "Morpheme_eq a b \<Longrightarrow> Morpheme_eq b c \<Longrightarrow> Morpheme_eq a c"
  by (simp add: Morpheme_eq_iff)

lemma Morpheme_eq_left: "Morpheme_eq a b \<Longrightarrow> Morpheme_eq a c = Morpheme_eq b c"
  by (auto simp: Morpheme_eq_iff)

lemma dict_get_cong: "Morpheme_eq m m' \<Longrightarrow> dict_get d m = dict_get d m'"
  by (induction d) (auto simp: Morpheme_eq_iff)

lemma dict_get_SomeD: "dict_get d m = Some v \<Longrightarrow> \<exists>k. (k, v) \<in> set d \<and> Morpheme_eq k m"
  by (induction d) (auto split: if_splits)

lemma dict_get_NoneD: "dict_get d m = None \<Longrightarrow> (k, v) \<in> set d \<Longrightarrow> \<not> Morpheme_eq k m"
  by (induction d) (auto split: if_splits)

lemma dict_get_append:
  "dict_get (d @ e) m = (case dict_get d m of Some v \<Rightarrow> Some v | None \<Rightarrow> dict_get e m)"
  by (induction d) auto

lemma dict_ok_mem: "dict_ok d \<Longrightarrow> (k, v) \<in> set d \<Longrightarrow> dict_get d k = Some v"
proof (induction d)
  case Nil
  then show ?case by simp
next
  case (Cons x d)
  obtain k0 v0 where x: "x = (k0, v0)" by (cases x)
  show ?case
  proof (cases "(k, v) = (k0, v0)")
    case True
    then show ?thesis using x by simp
  next
    case False
    with Cons.prems x have mem: "(k, v) \<in> set d" by auto
    from Cons.prems x have "dict_get d k0 = None" "dict_ok d" by simp_all
    from dict_get_NoneD [OF this(1) mem] have "\<not> Morpheme_eq k0 k"
      by (auto dest: Morpheme_eq_sym)
    with Cons.IH [OF \<open>dict_ok d\<close> mem] x show ?thesis by simp
  qed
qed

lemma dict_get_dict_set:
  "dict_get (dict_set d m v) m' = (if Morpheme_eq m m' then Some v else dict_get d m')"
  by (induction d) (auto simp: Morpheme_eq_iff)

lemma dict_set_absent: "dict_get d m = None \<Longrightarrow> dict_set d m v = d @ [(m, v)]"
  by (induction d) (auto split: if_splits)

lemma dict_ok_dict_set: "dict_ok d \<Longrightarrow> dict_ok (dict_set d m v)"
  by (induction d) (auto simp: dict_get_dict_set dest: Morpheme_eq_sym)


lemma sets_keyed_iff:
  "sets_keyed es \<longleftrightarrow> (\<forall>k s k'. (k, s) \<in> set es \<longrightarrow> (k', s) \<in> set es \<longrightarrow> Morpheme_eq k k')"
  by (fastforce simp: sets_keyed_def list_all_iff)

lemma sets_keyed_subset: "sets_keyed es \<Longrightarrow> set es' \<subseteq> set es \<Longrightarrow> sets_keyed es'"
  by (auto simp: sets_keyed_iff)

lemma sets_keyed_get:
  assumes "sets_keyed (db @ es)" and "dict_get db k = Some s" and "dict_get db k' = Some s"
  shows "Morpheme_eq k k'"
proof -
  from assms(2) obtain k0 where k0: "(k0, s) \<in> set db" "Morpheme_eq k0 k"
    by (auto dest: dict_get_SomeD)
  from assms(3) obtain k1 where k1: "(k1, s) \<in> set db" "Morpheme_eq k1 k'"
    by (auto dest: dict_get_SomeD)
  from assms(1) k0(1) k1(1) have "Morpheme_eq k0 k1"
    by (auto simp: sets_keyed_iff)
  with k0(2) k1(2) show ?thesis
    by (auto simp: Morpheme_eq_iff)
qed

lemma sets_keyed_cross:
  assumes "sets_keyed (db @ es)" and "dict_get db k = Some s" and "(k', s) \<in> set es"
  shows "Morpheme_eq k k'"
proof -
  from assms(2) obtain k0 where k0: "(k0, s) \<in> set db" "Morpheme_eq k0 k"
    by (auto dest: dict_get_SomeD)
  from assms(1) k0(1) assms(3) have "Morpheme_eq k0 k'"
    by (auto simp: sets_keyed_iff)
  with k0(2) show ?thesis
    by (auto simp: Morpheme_eq_iff)
qed

lemma dict_ok_same_key:
  assumes "dict_ok d" and "(k, v) \<in> set d" and "(k', v') \<in> set d" and "Morpheme_eq k k'"
  shows "v = v'"
proof -
  from dict_ok_mem [OF assms(1,2)] have "dict_get d k = Some v" .
  moreover from dict_ok_mem [OF assms(1,3)] have "dict_get d k' = Some v'" .
  moreover from assms(4) have "dict_get d k = dict_get d k'" by (rule dict_get_cong)
  ultimately show ?thesis by simp
qed

section \<open>Merging two databases\<close>

lemma merge_loop_dict:
  "merge_loop st db items new = (st', db', new')
   \<Longrightarrow> dict_get db' m = (case dict_get db m of Some s \<Rightarrow> Some s | None \<Rightarrow> dict_get items m)"
proof (induction items arbitrary: st db new)
  case Nil
  then show ?case by (auto split: option.splits)
next
  case (Cons x items)
  obtain k l where x: "x = (k, l)" by (cases x)
  show ?case
  proof (cases "dict_get db k")
    case None
    with Cons.prems x
    have "merge_loop st (dict_set db k l) items (new + card (sets st l)) = (st', db', new')"
      by simp
    from Cons.IH [OF this] None x show ?thesis
      using dict_get_cong [of k m db]
      by (auto simp: dict_get_dict_set split: option.splits)
  next
    case (Some s)
    with Cons.prems x
    have "merge_loop (st\<lparr>sets := (sets st)(s := sets st s \<union> sets st l)\<rparr>) db items
            (new + card (sets st l - sets st s)) = (st', db', new')"
      by simp
    from Cons.IH [OF this] Some x show ?thesis
      using dict_get_cong [of k m db]
      by (auto split: option.splits)
  qed
qed

lemma merge_loop_counters:
  "merge_loop st db items new = (st', db', new')
   \<Longrightarrow> next_set st' = next_set st \<and> next_id st' = next_id st"
proof (induction items arbitrary: st db new)
  case Nil
  then show ?case by simp
next
  case (Cons x items)
  obtain k l where x: "x = (k, l)" by (cases x)
  from Cons.prems x show ?case
    by (cases "dict_get db k") (auto dest!: Cons.IH)
qed

text \<open>What the loop adds to the set object at address a.\<close>

lemma merge_loop_sets:
  assumes "dict_ok items" and "sets_keyed (db @ items)"
    and "merge_loop st db items new = (st', db', new')"
  shows "sets st' a = sets st a \<union> (\<Union>(k, l)\<in>set items. if dict_get db k = Some a then sets st l else {})"
  using assms
proof (induction items arbitrary: st db new)
  case Nil
  then show ?case by simp
next
  case (Cons x items)
  obtain k l where x: "x = (k, l)" by (cases x)
  from Cons.prems(1) x have ok: "dict_ok items" and fresh: "dict_get items k = None"
    by simp_all
  have distinct_k: "\<not> Morpheme_eq k k'" if "(k', l') \<in> set items" for k' l'
    using dict_get_NoneD [OF fresh that] by (auto dest: Morpheme_eq_sym)
  show ?case
  proof (cases "dict_get db k")
    case None
    let ?db1 = "dict_set db k l"
    have db1: "?db1 = db @ [(k, l)]"
      using None by (rule dict_set_absent)
    from Cons.prems(3) None x
    have run: "merge_loop st ?db1 items (new + card (sets st l)) = (st', db', new')"
      by simp
    have keyed: "sets_keyed (?db1 @ items)"
      using Cons.prems(2) x db1 by (auto elim!: sets_keyed_subset)
    have same: "dict_get ?db1 k' = dict_get db k'" if "(k', l') \<in> set items" for k' l'
      using distinct_k [OF that] by (simp add: dict_get_dict_set)
    from Cons.IH [OF ok keyed run]
    have "sets st' a = sets st a \<union> (\<Union>(k, l)\<in>set items. if dict_get ?db1 k = Some a then sets st l else {})" .
    also have "(\<Union>(k, l)\<in>set items. if dict_get ?db1 k = Some a then sets st l else {})
             = (\<Union>(k, l)\<in>set items. if dict_get db k = Some a then sets st l else {})"
      using same by (intro SUP_cong) (auto split: if_splits)
    finally show ?thesis
      using None x by simp
  next
    case (Some s)
    let ?st1 = "st\<lparr>sets := (sets st)(s := sets st s \<union> sets st l)\<rparr>"
    from Cons.prems(3) Some x
    have run: "merge_loop ?st1 db items (new + card (sets st l - sets st s)) = (st', db', new')"
      by simp
    have keyed: "sets_keyed (db @ items)"
      using Cons.prems(2) x by (auto elim!: sets_keyed_subset)
    have keyed_x: "sets_keyed (db @ (k, l) # items)"
      using Cons.prems(2) x by simp
    have not_s: "l' \<noteq> s" if "(k', l') \<in> set items" for k' l'
    proof
      assume "l' = s"
      with that have "(k', s) \<in> set ((k, l) # items)" by simp
      from sets_keyed_cross [OF keyed_x Some this] distinct_k [OF that] show False by simp
    qed
    have not_key: "dict_get db k' \<noteq> Some s" if "(k', l') \<in> set items" for k' l'
    proof
      assume "dict_get db k' = Some s"
      from sets_keyed_get [OF keyed_x Some this] distinct_k [OF that] show False by simp
    qed
    from Cons.IH [OF ok keyed run]
    have "sets st' a = sets ?st1 a \<union> (\<Union>(k, l)\<in>set items. if dict_get db k = Some a then sets ?st1 l else {})" .
    also have "(\<Union>(k, l)\<in>set items. if dict_get db k = Some a then sets ?st1 l else {})
             = (\<Union>(k, l)\<in>set items. if dict_get db k = Some a then sets st l else {})"
      using not_s by (intro SUP_cong) (auto split: if_splits)
    finally have step: "sets st' a = sets ?st1 a \<union> (\<Union>(k, l)\<in>set items. if dict_get db k = Some a then sets st l else {})" .
    show ?thesis
    proof (cases "a = s")
      case True
      have "(\<Union>(k, l)\<in>set items. if dict_get db k = Some s then sets st l else {}) = {}"
        using not_key by auto
      with step True Some x show ?thesis by auto
    next
      case False
      with step Some x show ?thesis by auto
    qed
  qed
qed




lemma merge_added_eq:
  assumes "dict_ok md" and "sets_keyed (db @ md)" and "dict_get db m = Some a"
  shows "(\<Union>(k, l)\<in>set md. if dict_get db k = Some a then sets st l else {}) = locs_of st md m"
proof (cases "dict_get md m")
  case None
  have "dict_get db k \<noteq> Some a" if "(k, l) \<in> set md" for k l
  proof
    assume "dict_get db k = Some a"
    from sets_keyed_get [OF assms(2) this assms(3)] dict_get_NoneD [OF None that]
    show False by simp
  qed
  with None show ?thesis
    by (auto simp: locs_of_def)
next
  case (Some l0)
  then obtain k0 where k0: "(k0, l0) \<in> set md" "Morpheme_eq k0 m"
    by (auto dest: dict_get_SomeD)
  from k0(2) assms(3) have get0: "dict_get db k0 = Some a"
    by (simp add: dict_get_cong)
  have only: "l = l0" if "(k, l) \<in> set md" "dict_get db k = Some a" for k l
  proof -
    from sets_keyed_get [OF assms(2) that(2) get0] have "Morpheme_eq k k0" .
    from dict_ok_same_key [OF assms(1) that(1) k0(1) this] show ?thesis .
  qed
  have "(\<Union>(k, l)\<in>set md. if dict_get db k = Some a then sets st l else {}) = sets st l0"
  proof
    show "(\<Union>(k, l)\<in>set md. if dict_get db k = Some a then sets st l else {}) \<subseteq> sets st l0"
      using only by (fastforce split: if_splits)
    show "sets st l0 \<subseteq> (\<Union>(k, l)\<in>set md. if dict_get db k = Some a then sets st l else {})"
      using k0(1) get0 by force
  qed
  with Some show ?thesis
    by (simp add: locs_of_def)
qed

lemma merge_other_unchanged:
  assumes "dict_ok md" and "sets_keyed (db @ md)" and "merge st db md = (st', db', new)"
    and "(m, l) \<in> set md"
  shows "sets st' l = sets st l"
proof -
  have "(\<Union>(k, l')\<in>set md. if dict_get db k = Some l then sets st l' else {}) \<subseteq> sets st l"
  proof -
    have "l' = l" if "(k, l') \<in> set md" "dict_get db k = Some l" for k l'
    proof -
      from sets_keyed_cross [OF assms(2) that(2) assms(4)] have "Morpheme_eq k m" .
      from dict_ok_same_key [OF assms(1) that(1) assms(4) this] show ?thesis .
    qed
    then show ?thesis by (fastforce split: if_splits)
  qed
  with merge_loop_sets [OF assms(1,2) assms(3) [unfolded merge_def], of l] show ?thesis
    by auto
qed

lemma merge_locs_of:
  assumes "dict_ok md" and "sets_keyed (db @ md)" and "merge st db md = (st', db', new)"
  shows "locs_of st' db' m = locs_of st db m \<union> locs_of st md m"
proof (cases "dict_get db m")
  case (Some a)
  with merge_loop_dict [OF assms(3) [unfolded merge_def], of m]
  have "dict_get db' m = Some a" by simp
  with Some merge_loop_sets [OF assms(1,2) assms(3) [unfolded merge_def], of a]
    merge_added_eq [OF assms(1,2) Some, of st]
  show ?thesis
    by (simp add: locs_of_def)
next
  case None
  with merge_loop_dict [OF assms(3) [unfolded merge_def], of m]
  have get': "dict_get db' m = dict_get md m" by simp
  show ?thesis
  proof (cases "dict_get md m")
    case None
    with get' \<open>dict_get db m = None\<close> show ?thesis
      by (simp add: locs_of_def)
  next
    case (Some l)
    then obtain k where "(k, l) \<in> set md"
      by (auto dest: dict_get_SomeD)
    from merge_other_unchanged [OF assms this] Some get' \<open>dict_get db m = None\<close>
    show ?thesis
      by (simp add: locs_of_def)
  qed
qed

lemma merge_lookup:
  assumes "dict_ok md" and "sets_keyed (db @ md)" and "merge st db md = (st', db', new)"
  shows "db_lookup st' db' m =
           (case (db_lookup st db m, db_lookup st md m) of
              (None, None) \<Rightarrow> None
            | (Some a, None) \<Rightarrow> Some a
            | (None, Some b) \<Rightarrow> Some b
            | (Some a, Some b) \<Rightarrow> Some (a \<union> b))"
proof -
  have get': "dict_get db' m = (case dict_get db m of Some s \<Rightarrow> Some s | None \<Rightarrow> dict_get md m)"
    using merge_loop_dict [OF assms(3) [unfolded merge_def]] .
  from merge_locs_of [OF assms, of m] get' show ?thesis
    by (auto simp: db_lookup_def locs_of_def split: option.splits)
qed




lemma import_twice:
  "\<exists>mc1 st1 mc2.
     importFile file_env word_morphemizer empty_cache empty_store [] ''a.txt'' None
       = (None, mc1, st1, first_db)
     \<and> importFile file_env word_morphemizer mc1 st1 [] ''a.txt'' None
       = (None, mc2, twice_store, second_db)"
  by (simp add: importFile_def getMorphemes.simps strip_def isspace_def enumerate_eq_zip cache_store_def
      save_def Let_def new_loc_def new_set_def TextFile_init_def file_env_def word_morphemizer_def
      empty_cache_def empty_store_def
      m_inu_def m_neko_def Morpheme_init_def Morpheme_eq_def
      line_loc_def twice_store_def first_db_def second_db_def fun_eq_iff eval_nat_numeral)




text \<open>
  Claim C4, as the code has it.  The two merges start from the same store, which is what
  the fresh copies of the claim provide.  For two databases in which no set object is
  stored under two different morphemes, merging B into A and merging A into B leave the
  same location set for every morpheme: the union of the sets of A and of B, and no key
  for a morpheme that neither has.
\<close>

theorem merge_commutes_on_contents:
  assumes "dict_ok dbA" and "dict_ok dbB" and "sets_keyed (dbA @ dbB)"
    and "merge st dbA dbB = (st1, db1, new1)" and "merge st dbB dbA = (st2, db2, new2)"
  shows "\<forall>m. db_lookup st1 db1 m = db_lookup st2 db2 m
           \<and> db_lookup st1 db1 m =
               (case (db_lookup st dbA m, db_lookup st dbB m) of
                  (None, None) \<Rightarrow> None
                | (Some a, None) \<Rightarrow> Some a
                | (None, Some b) \<Rightarrow> Some b
                | (Some a, Some b) \<Rightarrow> Some (a \<union> b))"
proof
  fix m
  have keyed': "sets_keyed (dbB @ dbA)"
    using assms(3) by (rule sets_keyed_subset) auto
  from merge_lookup [OF assms(2,3,4), of m] merge_lookup [OF assms(1) keyed' assms(5), of m]
  show "db_lookup st1 db1 m = db_lookup st2 db2 m
           \<and> db_lookup st1 db1 m =
               (case (db_lookup st dbA m, db_lookup st dbB m) of
                  (None, None) \<Rightarrow> None
                | (Some a, None) \<Rightarrow> Some a
                | (None, Some b) \<Rightarrow> Some b
                | (Some a, Some b) \<Rightarrow> Some (a \<union> b))"
    by (auto split: option.splits)
qed

text \<open>
  The theorem at \<open>first_db\<close> and \<open>third_db\<close>: the contents agree, and the two counts, 1 and
  2, differ.
\<close>

theorem merge_commutes_on_contents_witness:
  "dict_ok first_db \<and> dict_ok third_db \<and> sets_keyed (first_db @ third_db)
   \<and> snd (merge twice_store first_db third_db) = (first_db, 1)
   \<and> snd (merge twice_store third_db first_db) = ([(m_inu, 2), (m_neko, 1)], 2)
   \<and> db_lookup (fst (merge twice_store first_db third_db)) first_db m_inu
       = Some {line_loc 0 1, line_loc 2 1}
   \<and> db_lookup (fst (merge twice_store third_db first_db)) [(m_inu, 2), (m_neko, 1)] m_inu
       = Some {line_loc 0 1, line_loc 2 1}"
proof -
  have ok1: "dict_ok first_db" and ok3: "dict_ok third_db"
    and keyed: "sets_keyed (first_db @ third_db)"
    by (simp_all add: merge_def sets_keyed_def twice_store_def line_loc_def
        first_db_def third_db_def m_inu_def m_neko_def Morpheme_init_def Morpheme_eq_def)
  obtain st1 db1 new1 where run1: "merge twice_store first_db third_db = (st1, db1, new1)"
    by (cases "merge twice_store first_db third_db")
  obtain st2 db2 new2 where run2: "merge twice_store third_db first_db = (st2, db2, new2)"
    by (cases "merge twice_store third_db first_db")
  from run1 have res1: "db1 = first_db" "new1 = 1"
    by (auto simp add: merge_def sets_keyed_def twice_store_def line_loc_def
        first_db_def third_db_def m_inu_def m_neko_def Morpheme_init_def Morpheme_eq_def)
  from run2 have res2: "db2 = [(m_inu, 2), (m_neko, 1)]" "new2 = 2"
    by (auto simp add: merge_def sets_keyed_def twice_store_def line_loc_def
        first_db_def third_db_def m_inu_def m_neko_def Morpheme_init_def Morpheme_eq_def)
  have before: "db_lookup twice_store first_db m_inu = Some {line_loc 0 1}"
    "db_lookup twice_store third_db m_inu = Some {line_loc 2 1}"
    by (simp_all add: db_lookup_def merge_def sets_keyed_def twice_store_def line_loc_def
        first_db_def third_db_def m_inu_def m_neko_def Morpheme_init_def Morpheme_eq_def)
  from merge_commutes_on_contents [OF ok1 ok3 keyed run1 run2, THEN spec, of m_inu] before
  have "db_lookup st1 db1 m_inu = db_lookup st2 db2 m_inu"
    and "db_lookup st1 db1 m_inu = Some ({line_loc 0 1} \<union> {line_loc 2 1})"
    by auto
  moreover have "{line_loc 0 1} \<union> {line_loc 2 1} = {line_loc 0 1, line_loc 2 1}"
    by auto
  ultimately have both: "db_lookup st1 db1 m_inu = Some {line_loc 0 1, line_loc 2 1}"
    "db_lookup st2 db2 m_inu = Some {line_loc 0 1, line_loc 2 1}"
    by metis+
  from ok1 ok3 keyed run1 run2 res1 res2 both show ?thesis
    by simp
qed

text \<open>
  Claim C4 as it is written has the same location sets after both merges for any two
  databases.  \<open>shared_db\<close> holds the set object 1 under \<open>m_inu\<close> and under \<open>m_neko\<close>,
  as \<^verbatim>\<open>addMLs1\<close> leaves it when it is given the set of another key.  Merging
  \<open>shared_db\<close> into \<open>inu_db\<close> updates the set object 0 of \<open>inu_db\<close> and takes the set
  object 1 as it is for \<open>m_neko\<close>; merging \<open>inu_db\<close> into \<open>shared_db\<close> updates the set
  object 1, which \<open>m_neko\<close> shares: \<open>m_neko\<close> has one location after the first merge and
  two after the second.
\<close>

theorem merge_shared_set_counterexample:
  "addMLs1 twice_store [(m_inu, 1)] m_neko 1 = (twice_store, shared_db)
   \<and> dict_ok inu_db \<and> dict_ok shared_db
   \<and> allocated twice_store inu_db \<and> allocated twice_store shared_db
   \<and> db_lookup (fst (merge twice_store inu_db shared_db))
        (fst (snd (merge twice_store inu_db shared_db))) m_neko
       = Some {line_loc 1 2}
   \<and> db_lookup (fst (merge twice_store shared_db inu_db))
        (fst (snd (merge twice_store shared_db inu_db))) m_neko
       = Some {line_loc 0 1, line_loc 1 2}
   \<and> line_loc 0 1 \<notin> {line_loc 1 2}"
  by (auto simp add: addMLs1_def allocated_def db_lookup_def merge_def twice_store_def
      line_loc_def inu_db_def shared_db_def m_inu_def m_neko_def Morpheme_init_def
      Morpheme_eq_def)

section \<open>Adding pairs to a database\<close>

lemma allocated_iff: "allocated st db \<longleftrightarrow> (\<forall>k s. (k, s) \<in> set db \<longrightarrow> s < next_set st)"
  by (auto simp: allocated_def list_all_iff)

lemma allocated_get: "allocated st db \<Longrightarrow> dict_get db m = Some s \<Longrightarrow> s < next_set st"
  by (auto simp: allocated_iff dest: dict_get_SomeD)

lemma addMLs_get_stable:
  "dict_get db m = Some s \<Longrightarrow> addMLs st db mls = (st', db') \<Longrightarrow> dict_get db' m = Some s"
proof (induction mls arbitrary: st db)
  case Nil
  then show ?case by simp
next
  case (Cons x mls)
  obtain k l where x: "x = (k, l)" by (cases x)
  show ?case
  proof (cases "dict_get db k")
    case None
    with Cons.prems(1) have "\<not> Morpheme_eq k m"
      using dict_get_cong [of k m db] by auto
    with Cons.prems(1) have "dict_get (dict_set db k (next_set st)) m = Some s"
      by (simp add: dict_get_dict_set)
    from Cons.IH [OF this] Cons.prems(2) None x show ?thesis
      by (simp add: new_set_def)
  next
    case (Some a)
    from Cons.IH [OF Cons.prems(1)] Cons.prems(2) Some x show ?thesis
      by simp
  qed
qed

lemma addMLs_step_None:
  assumes "dict_get db k = None"
  shows "addMLs st db ((k, l) # mls)
           = addMLs (st\<lparr>sets := (sets st)(next_set st := {l}), next_set := Suc (next_set st)\<rparr>)
               (db @ [(k, next_set st)]) mls"
  using assms by (simp add: new_set_def dict_set_absent)

lemma allocated_step_None:
  assumes "allocated st db"
  shows "allocated (st\<lparr>sets := (sets st)(next_set st := {l}), next_set := Suc (next_set st)\<rparr>)
               (db @ [(k, next_set st)])"
  using assms by (auto simp: allocated_iff less_Suc_eq)

lemma addMLs_grows:
  assumes "allocated st db" and "addMLs st db mls = (st', db')"
  shows "allocated st' db' \<and> next_set st \<le> next_set st'
         \<and> (\<forall>a. a < next_set st \<longrightarrow> sets st a \<subseteq> sets st' a)"
  using assms
proof (induction mls arbitrary: st db)
  case Nil
  then show ?case by simp
next
  case (Cons x mls)
  obtain k l where x: "x = (k, l)" by (cases x)
  show ?case
  proof (cases "dict_get db k")
    case None
    let ?st1 = "st\<lparr>sets := (sets st)(next_set st := {l}), next_set := Suc (next_set st)\<rparr>"
    note step = addMLs_step_None [OF None, of st l mls]
    note alloc = allocated_step_None [OF Cons.prems(1), of l k]
    from Cons.prems(2) x step have "addMLs ?st1 (db @ [(k, next_set st)]) mls = (st', db')"
      by simp
    from Cons.IH [OF alloc this] show ?thesis
      by (auto simp: subset_iff)
  next
    case (Some s)
    let ?st1 = "st\<lparr>sets := (sets st)(s := insert l (sets st s))\<rparr>"
    have alloc: "allocated ?st1 db"
      using Cons.prems(1) by (simp add: allocated_iff)
    from Cons.prems(2) x Some have "addMLs ?st1 db mls = (st', db')"
      by simp
    from Cons.IH [OF alloc this] show ?thesis
      by (auto simp: subset_iff split: if_splits)
  qed
qed

lemma addMLs_inserted:
  assumes "allocated st db" and "addMLs st db mls = (st', db')" and "(k, l) \<in> set mls"
  shows "\<exists>s. dict_get db' k = Some s \<and> l \<in> sets st' s"
  using assms
proof (induction mls arbitrary: st db)
  case Nil
  then show ?case by simp
next
  case (Cons x mls)
  obtain k0 l0 where x: "x = (k0, l0)" by (cases x)
  obtain st1 db1 s1 where step: "addMLs st db (x # mls) = addMLs st1 db1 mls"
    and alloc1: "allocated st1 db1" and get1: "dict_get db1 k0 = Some s1" and in1: "l0 \<in> sets st1 s1"
  proof (cases "dict_get db k0")
    case None
    note s = addMLs_step_None [OF None, of st l0 mls]
    note alloc = allocated_step_None [OF Cons.prems(1), of l0 k0]
    show ?thesis
    proof (rule that [OF _ alloc])
      show "addMLs st db (x # mls)
              = addMLs (st\<lparr>sets := (sets st)(next_set st := {l0}), next_set := Suc (next_set st)\<rparr>)
                  (db @ [(k0, next_set st)]) mls"
        using s x by simp
      show "dict_get (db @ [(k0, next_set st)]) k0 = Some (next_set st)"
        using None by (simp add: dict_get_append)
      show "l0 \<in> sets (st\<lparr>sets := (sets st)(next_set st := {l0}), next_set := Suc (next_set st)\<rparr>)
                  (next_set st)"
        by simp
    qed
  next
    case (Some s)
    show ?thesis
    proof (rule that [of "st\<lparr>sets := (sets st)(s := insert l0 (sets st s))\<rparr>" db s])
      show "addMLs st db (x # mls) = addMLs (st\<lparr>sets := (sets st)(s := insert l0 (sets st s))\<rparr>) db mls"
        using Some x by simp
      show "allocated (st\<lparr>sets := (sets st)(s := insert l0 (sets st s))\<rparr>) db"
        using Cons.prems(1) by (simp add: allocated_iff)
      show "dict_get db k0 = Some s" by fact
      show "l0 \<in> sets (st\<lparr>sets := (sets st)(s := insert l0 (sets st s))\<rparr>) s"
        by simp
    qed
  qed
  from Cons.prems(2) step have rest: "addMLs st1 db1 mls = (st', db')"
    by simp
  show ?case
  proof (cases "(k, l) = (k0, l0)")
    case True
    from addMLs_get_stable [OF get1 rest] have "dict_get db' k0 = Some s1" .
    moreover from addMLs_grows [OF alloc1 rest] allocated_get [OF alloc1 get1] in1
    have "l0 \<in> sets st' s1" by auto
    ultimately show ?thesis using True by auto
  next
    case False
    with Cons.prems(3) x have "(k, l) \<in> set mls" by auto
    from Cons.IH [OF alloc1 rest this] show ?thesis .
  qed
qed

lemma sets_keyed_get1:
  "sets_keyed db \<Longrightarrow> dict_get db k = Some s \<Longrightarrow> dict_get db k' = Some s \<Longrightarrow> Morpheme_eq k k'"
  using sets_keyed_get [of db "[]" k s k'] by simp

lemma sets_keyed_step_None:
  assumes "sets_keyed db" and "allocated st db"
  shows "sets_keyed (db @ [(k, next_set st)])"
  using assms by (fastforce simp: sets_keyed_iff allocated_iff)

lemma addMLs_dict_ok: "dict_ok db \<Longrightarrow> addMLs st db mls = (st', db') \<Longrightarrow> dict_ok db'"
proof (induction mls arbitrary: st db)
  case Nil
  then show ?case by simp
next
  case (Cons x mls)
  obtain k l where x: "x = (k, l)" by (cases x)
  show ?case
  proof (cases "dict_get db k")
    case None
    with Cons.prems(2) x
    have "addMLs (st\<lparr>sets := (sets st)(next_set st := {l}), next_set := Suc (next_set st)\<rparr>)
            (dict_set db k (next_set st)) mls = (st', db')"
      by (simp add: new_set_def)
    from Cons.IH [OF dict_ok_dict_set [OF Cons.prems(1)] this] show ?thesis .
  next
    case (Some s)
    with Cons.prems(2) x
    have "addMLs (st\<lparr>sets := (sets st)(s := insert l (sets st s))\<rparr>) db mls = (st', db')"
      by simp
    from Cons.IH [OF Cons.prems(1) this] show ?thesis .
  qed
qed

lemma dict_ok_one_key:
  "dict_ok d \<Longrightarrow> length (filter (\<lambda>(k, v). Morpheme_eq k m) d) = (if dict_get d m = None then 0 else 1)"
proof (induction d)
  case Nil
  then show ?case by simp
next
  case (Cons x d)
  obtain k v where x: "x = (k, v)" by (cases x)
  from Cons.prems x have none: "dict_get d k = None" and ok: "dict_ok d" by simp_all
  show ?case
  proof (cases "Morpheme_eq k m")
    case True
    then have "dict_get d m = None" using none dict_get_cong [of k m d] by simp
    with Cons.IH [OF ok] True x show ?thesis by simp
  next
    case False
    with Cons.IH [OF ok] x show ?thesis by simp
  qed
qed

lemma addMLs_locs_of:
  assumes "allocated st db" and "sets_keyed db" and "addMLs st db mls = (st', db')"
  shows "locs_of st' db' m = locs_of st db m \<union> {l. \<exists>k. (k, l) \<in> set mls \<and> Morpheme_eq k m}"
  using assms
proof (induction mls arbitrary: st db)
  case Nil
  then show ?case by simp
next
  case (Cons x mls)
  obtain k0 l0 where x: "x = (k0, l0)" by (cases x)
  have split: "{l. \<exists>k. (k, l) \<in> set (x # mls) \<and> Morpheme_eq k m}
             = (if Morpheme_eq k0 m then {l0} else {}) \<union> {l. \<exists>k. (k, l) \<in> set mls \<and> Morpheme_eq k m}"
    using x by auto
  show ?case
  proof (cases "dict_get db k0")
    case None
    let ?st1 = "st\<lparr>sets := (sets st)(next_set st := {l0}), next_set := Suc (next_set st)\<rparr>"
    let ?db1 = "db @ [(k0, next_set st)]"
    have run: "addMLs ?st1 ?db1 mls = (st', db')"
      using Cons.prems(3) x addMLs_step_None [OF None, of st l0 mls] by simp
    have alloc: "allocated ?st1 ?db1"
      using Cons.prems(1) by (rule allocated_step_None)
    have keyed: "sets_keyed ?db1"
      using Cons.prems(2,1) by (rule sets_keyed_step_None)
    have step: "locs_of ?st1 ?db1 m = locs_of st db m \<union> (if Morpheme_eq k0 m then {l0} else {})"
    proof (cases "dict_get db m")
      case None
      then show ?thesis by (simp add: locs_of_def dict_get_append)
    next
      case (Some a)
      with None have "\<not> Morpheme_eq k0 m"
        using dict_get_cong [of k0 m db] by auto
      moreover from allocated_get [OF Cons.prems(1) Some] have "a \<noteq> next_set st" by simp
      ultimately show ?thesis using Some by (simp add: locs_of_def dict_get_append)
    qed
    from Cons.IH [OF alloc keyed run] step split show ?thesis
      by (simp add: Un_assoc)
  next
    case (Some s)
    let ?st1 = "st\<lparr>sets := (sets st)(s := insert l0 (sets st s))\<rparr>"
    have run: "addMLs ?st1 db mls = (st', db')"
      using Cons.prems(3) x Some by simp
    have alloc: "allocated ?st1 db"
      using Cons.prems(1) by (simp add: allocated_iff)
    have step: "locs_of ?st1 db m = locs_of st db m \<union> (if Morpheme_eq k0 m then {l0} else {})"
    proof (cases "Morpheme_eq k0 m")
      case True
      then have "dict_get db m = Some s" using Some dict_get_cong [of k0 m db] by simp
      with True show ?thesis by (auto simp: locs_of_def)
    next
      case False
      have "dict_get db m \<noteq> Some s"
        using sets_keyed_get1 [OF Cons.prems(2) Some] False by auto
      with False show ?thesis by (auto simp: locs_of_def split: option.splits)
    qed
    from Cons.IH [OF alloc Cons.prems(2) run] step split show ?thesis
      by (simp add: Un_assoc)
  qed
qed

lemma addMLs_present:
  "addMLs st db mls = (st', db') \<Longrightarrow> (k, l) \<in> set mls \<Longrightarrow> dict_get db' k \<noteq> None"
proof (induction mls arbitrary: st db)
  case Nil
  then show ?case by simp
next
  case (Cons x mls)
  obtain k0 l0 where x: "x = (k0, l0)" by (cases x)
  obtain st1 db1 where step: "addMLs st db (x # mls) = addMLs st1 db1 mls"
    and get1: "dict_get db1 k0 \<noteq> None"
  proof (cases "dict_get db k0")
    case None
    show ?thesis
    proof (rule that)
      show "addMLs st db (x # mls)
              = addMLs (snd (new_set st l0)) (dict_set db k0 (next_set st)) mls"
        using None x by (simp add: new_set_def)
      show "dict_get (dict_set db k0 (next_set st)) k0 \<noteq> None"
        by (simp add: dict_get_dict_set)
    qed
  next
    case (Some s)
    show ?thesis
    proof (rule that)
      show "addMLs st db (x # mls) = addMLs (st\<lparr>sets := (sets st)(s := insert l0 (sets st s))\<rparr>) db mls"
        using Some x by simp
      show "dict_get db k0 \<noteq> None" using Some by simp
    qed
  qed
  from Cons.prems(1) step have rest: "addMLs st1 db1 mls = (st', db')" by simp
  show ?case
  proof (cases "(k, l) = (k0, l0)")
    case True
    from get1 obtain s1 where "dict_get db1 k0 = Some s1" by auto
    from addMLs_get_stable [OF this rest] True show ?thesis by simp
  next
    case False
    with Cons.prems(2) x have "(k, l) \<in> set mls" by auto
    from Cons.IH [OF rest this] show ?thesis .
  qed
qed

lemma addMLs_one_morpheme:
  assumes "\<forall>(k, l)\<in>set mls. Morpheme_eq k m" and "addMLs st db mls = (st', db')"
  shows "locs_of st' db' m = locs_of st db m \<union> snd ` set mls"
  using assms
proof (induction mls arbitrary: st db)
  case Nil
  then show ?case by simp
next
  case (Cons x mls)
  obtain k l where x: "x = (k, l)" by (cases x)
  from Cons.prems(1) x have km: "Morpheme_eq k m" and rest_eq: "\<forall>(k, l)\<in>set mls. Morpheme_eq k m"
    by auto
  have get: "dict_get db k = dict_get db m"
    using km by (rule dict_get_cong)
  show ?case
  proof (cases "dict_get db k")
    case None
    let ?st1 = "st\<lparr>sets := (sets st)(next_set st := {l}), next_set := Suc (next_set st)\<rparr>"
    let ?db1 = "dict_set db k (next_set st)"
    from Cons.prems(2) x None have run: "addMLs ?st1 ?db1 mls = (st', db')"
      by (simp add: new_set_def)
    have "locs_of ?st1 ?db1 m = {l}"
      using km by (simp add: locs_of_def dict_get_dict_set)
    moreover have "locs_of st db m = {}"
      using None get by (simp add: locs_of_def)
    ultimately show ?thesis
      using Cons.IH [OF rest_eq run] x by auto
  next
    case (Some s)
    let ?st1 = "st\<lparr>sets := (sets st)(s := insert l (sets st s))\<rparr>"
    from Cons.prems(2) x Some have run: "addMLs ?st1 db mls = (st', db')"
      by simp
    have "locs_of ?st1 db m = insert l (locs_of st db m)"
      using Some get by (simp add: locs_of_def)
    with Cons.IH [OF rest_eq run] x show ?thesis by auto
  qed
qed

text \<open>
  Claim C5.  Two morphemes with the same base, pos, subPos and read are equal and have the
  same hash, whatever their inflected forms.  When \<^verbatim>\<open>addMLs\<close> inserts pairs for the two
  of them into a database, both are found under one set object, which holds the locations
  the morpheme had before together with all the locations inserted, and the dict has
  exactly one key equal to them.
\<close>

theorem equal_morphemes_one_key:
  assumes "base m1 = base m2" and "pos m1 = pos m2" and "subPos m1 = subPos m2"
    and "read m1 = read m2"
    and "dict_ok db" and "addMLs st db mls = (st', db')"
    and "(m1, l1) \<in> set mls" and "(m2, l2) \<in> set mls"
    and "\<forall>(k, l)\<in>set mls. Morpheme_eq k m1 \<or> Morpheme_eq k m2"
  shows "Morpheme_eq m1 m2 \<and> Morpheme_hash hash m1 = Morpheme_hash hash m2
         \<and> (\<exists>s. dict_get db' m1 = Some s \<and> dict_get db' m2 = Some s
                \<and> sets st' s = locs_of st db m1 \<union> snd ` set mls)
         \<and> length (filter (\<lambda>(k, s). Morpheme_eq k m1) db') = 1"
proof -
  have eq: "Morpheme_eq m1 m2"
    using assms(1-4) by (simp add: Morpheme_eq_def)
  have hash: "Morpheme_hash hash m1 = Morpheme_hash hash m2"
    using assms(1-4) by (simp add: Morpheme_hash_def)
  from addMLs_present [OF assms(6,7)] obtain s where s: "dict_get db' m1 = Some s"
    by auto
  from eq have "dict_get db' m1 = dict_get db' m2" by (rule dict_get_cong)
  with s have s2: "dict_get db' m2 = Some s" by simp
  have "\<forall>(k, l)\<in>set mls. Morpheme_eq k m1"
    using assms(9) eq by (auto simp: Morpheme_eq_iff)
  from addMLs_one_morpheme [OF this assms(6)] s
  have contents: "sets st' s = locs_of st db m1 \<union> snd ` set mls"
    by (simp add: locs_of_def)
  from dict_ok_one_key [OF addMLs_dict_ok [OF assms(5,6)], of m1] s
  have one: "length (filter (\<lambda>(k, s). Morpheme_eq k m1) db') = 1" by simp
  from eq hash s s2 contents one show ?thesis
    by auto
qed

text \<open>
  The theorem at \<open>first_db\<close>, which has the key \<open>m_inu\<close>, and two pairs whose morphemes
  differ in the inflected form only.
\<close>

theorem equal_morphemes_one_key_witness:
  "inflected m_inu \<noteq> inflected m_inus \<and> dict_ok first_db \<and> Morpheme_eq m_inu m_inus
   \<and> snd (addMLs twice_store first_db [(m_inu, line_loc 4 3), (m_inus, line_loc 5 4)]) = first_db
   \<and> dict_get first_db m_inus = Some 0
   \<and> sets (fst (addMLs twice_store first_db [(m_inu, line_loc 4 3), (m_inus, line_loc 5 4)])) 0
       = {line_loc 0 1, line_loc 4 3, line_loc 5 4}"
proof -
  let ?mls = "[(m_inu, line_loc 4 3), (m_inus, line_loc 5 4)]"
  have differ: "inflected m_inu \<noteq> inflected m_inus"
    by (simp add: m_inu_def m_inus_def Morpheme_init_def)
  have fields: "base m_inu = base m_inus" "pos m_inu = pos m_inus" "subPos m_inu = subPos m_inus"
    "read m_inu = read m_inus"
    by (simp_all add: m_inu_def m_inus_def Morpheme_init_def)
  have ok: "dict_ok first_db"
    by (simp add: first_db_def m_inu_def m_neko_def Morpheme_init_def Morpheme_eq_def)
  obtain st' db' where run: "addMLs twice_store first_db ?mls = (st', db')"
    by (cases "addMLs twice_store first_db ?mls")
  have mem: "(m_inu, line_loc 4 3) \<in> set ?mls" "(m_inus, line_loc 5 4) \<in> set ?mls"
    and only: "\<forall>(k, l)\<in>set ?mls. Morpheme_eq k m_inu \<or> Morpheme_eq k m_inus"
    by simp_all
  note main = equal_morphemes_one_key [OF fields ok run mem only]
  from run have db': "db' = first_db"
    by (auto simp add: first_db_def m_inu_def m_inus_def m_neko_def Morpheme_init_def Morpheme_eq_def)
  have get: "dict_get first_db m_inus = Some 0"
    by (simp add: first_db_def m_inu_def m_inus_def m_neko_def Morpheme_init_def Morpheme_eq_def)
  have before: "locs_of twice_store first_db m_inu = {line_loc 0 1}"
    by (simp add: locs_of_def twice_store_def first_db_def m_inu_def Morpheme_init_def Morpheme_eq_def)
  from main have eq: "Morpheme_eq m_inu m_inus"
    and "\<exists>s. dict_get db' m_inu = Some s \<and> dict_get db' m_inus = Some s
            \<and> sets st' s = locs_of twice_store first_db m_inu \<union> snd ` set ?mls"
    by blast+
  with db' get before have contents: "sets st' 0 = {line_loc 0 1, line_loc 4 3, line_loc 5 4}"
    by auto
  from differ ok eq run db' get contents show ?thesis
    by simp
qed

section \<open>Set objects shared by a merge\<close>

lemma merge_loop_entries:
  "merge_loop st db items new = (st', db', new') \<Longrightarrow> set db' \<subseteq> set db \<union> set items"
proof (induction items arbitrary: st db new)
  case Nil
  then show ?case by simp
next
  case (Cons x items)
  obtain k l where x: "x = (k, l)" by (cases x)
  show ?case
  proof (cases "dict_get db k")
    case None
    with Cons.prems x
    have "merge_loop st (db @ [(k, l)]) items (new + card (sets st l)) = (st', db', new')"
      by (simp add: dict_set_absent)
    from Cons.IH [OF this] x show ?thesis by auto
  next
    case (Some s)
    with Cons.prems x
    have "merge_loop (st\<lparr>sets := (sets st)(s := sets st s \<union> sets st l)\<rparr>) db items
            (new + card (sets st l - sets st s)) = (st', db', new')"
      by simp
    from Cons.IH [OF this] x show ?thesis by auto
  qed
qed

lemma merge_allocated:
  assumes "allocated st db" and "allocated st md" and "merge st db md = (st', db', new)"
  shows "allocated st' db'"
  using assms merge_loop_entries [OF assms(3) [unfolded merge_def]]
    merge_loop_counters [OF assms(3) [unfolded merge_def]]
  by (auto simp: allocated_iff)

text \<open>
  Claim C10.  Let \<open>m\<close> be a key of \<open>b\<close> (\<open>md\<close>) with set object \<open>s\<close> and no key of \<open>a\<close>
  (\<open>db\<close>).  After \<^verbatim>\<open>a.merge(b)\<close> the dict of \<open>a\<close> maps \<open>m\<close> to the address \<open>s\<close> itself.  A
  later \<^verbatim>\<open>a.addMLs\<close> with a pair for a morpheme equal to \<open>m\<close> keeps that address and
  inserts the location into the set object \<open>s\<close>, so that the location is among the
  locations that \<open>b\<close> holds for \<open>m\<close>.
\<close>

theorem merge_shares_set_object:
  assumes "dict_get db m = None" and "dict_get md m = Some s"
    and "allocated st db" and "allocated st md"
    and "merge st db md = (st', db', new)"
    and "addMLs st' db' mls = (st'', db'')" and "(k, l) \<in> set mls" and "Morpheme_eq k m"
  shows "dict_get db' m = Some s \<and> dict_get db'' m = Some s
         \<and> l \<in> sets st'' s \<and> l \<in> locs_of st'' md m"
proof -
  from merge_loop_dict [OF assms(5) [unfolded merge_def], of m] assms(1,2)
  have shared: "dict_get db' m = Some s" by simp
  from addMLs_get_stable [OF shared assms(6)] have kept: "dict_get db'' m = Some s" .
  from merge_allocated [OF assms(3,4,5)] have "allocated st' db'" .
  from addMLs_inserted [OF this assms(6,7)]
  obtain s2 where "dict_get db'' k = Some s2" "l \<in> sets st'' s2" by blast
  moreover from assms(8) have "dict_get db'' k = dict_get db'' m" by (rule dict_get_cong)
  ultimately have "l \<in> sets st'' s" using kept by simp
  with shared kept assms(2) show ?thesis
    by (simp add: locs_of_def)
qed

text \<open>
  The theorem at \<open>third_db\<close> merged with \<open>first_db\<close>: \<open>first_db\<close> gains a location that
  was only added to the merged database.
\<close>

theorem merge_shares_set_object_witness:
  "dict_get third_db m_neko = None \<and> dict_get first_db m_neko = Some 1
   \<and> allocated twice_store third_db \<and> allocated twice_store first_db
   \<and> Morpheme_eq m_nekos m_neko
   \<and> dict_get (fst (snd (merge twice_store third_db first_db))) m_neko = Some 1
   \<and> line_loc 4 3 \<in> locs_of
        (fst (addMLs (fst (merge twice_store third_db first_db))
                (fst (snd (merge twice_store third_db first_db))) [(m_nekos, line_loc 4 3)]))
        first_db m_neko
   \<and> line_loc 4 3 \<notin> locs_of twice_store first_db m_neko"
proof -
  have absent: "dict_get third_db m_neko = None" and present: "dict_get first_db m_neko = Some 1"
    and alloc3: "allocated twice_store third_db" and alloc1: "allocated twice_store first_db"
    and eq: "Morpheme_eq m_nekos m_neko"
    and before: "line_loc 4 3 \<notin> locs_of twice_store first_db m_neko"
    by (simp_all add: locs_of_def allocated_def twice_store_def line_loc_def first_db_def
        third_db_def m_nekos_def m_inu_def m_neko_def Morpheme_init_def Morpheme_eq_def)
  obtain st' db' new where run: "merge twice_store third_db first_db = (st', db', new)"
    by (cases "merge twice_store third_db first_db")
  obtain st'' db'' where add: "addMLs st' db' [(m_nekos, line_loc 4 3)] = (st'', db'')"
    by (cases "addMLs st' db' [(m_nekos, line_loc 4 3)]")
  have mem: "(m_nekos, line_loc 4 3) \<in> set [(m_nekos, line_loc 4 3)]"
    by simp
  from merge_shares_set_object [OF absent present alloc3 alloc1 run add mem eq]
  have "dict_get db' m_neko = Some 1" and "line_loc 4 3 \<in> locs_of st'' first_db m_neko"
    by simp_all
  with absent present alloc3 alloc1 eq before run add show ?thesis
    by simp
qed

section \<open>Import of the lines of a file\<close>

lemma new_locs_store:
  "new_locs st v ms = (mls, st1) \<Longrightarrow> sets st1 = sets st \<and> next_set st1 = next_set st"
proof (induction ms arbitrary: st mls st1)
  case Nil
  then show ?case by simp
next
  case (Cons m ms)
  obtain mls' st2 where rest: "new_locs (st\<lparr>next_id := Suc (next_id st)\<rparr>) v ms = (mls', st2)"
    by (cases "new_locs (st\<lparr>next_id := Suc (next_id st)\<rparr>) v ms")
  with Cons.prems have "st1 = st2"
    by (simp add: new_loc_def)
  with Cons.IH [OF rest] show ?case by simp
qed

lemma new_locs_pairs:
  "new_locs st v ms = (mls, st1) \<Longrightarrow> m \<in> set ms \<Longrightarrow> \<exists>l. (m, l) \<in> set mls \<and> obj_val l = v"
proof (induction ms arbitrary: st mls st1)
  case Nil
  then show ?case by simp
next
  case (Cons m0 ms)
  obtain mls' st2 where rest: "new_locs (st\<lparr>next_id := Suc (next_id st)\<rparr>) v ms = (mls', st2)"
    by (cases "new_locs (st\<lparr>next_id := Suc (next_id st)\<rparr>) v ms")
  with Cons.prems(1) have mls: "mls = (m0, \<lparr>obj_id = next_id st, obj_val = v\<rparr>) # mls'"
    by (auto simp: new_loc_def)
  show ?case
  proof (cases "m = m0")
    case True
    with mls show ?thesis by auto
  next
    case False
    with Cons.prems(2) have "m \<in> set ms" by simp
    from Cons.IH [OF rest this] mls show ?thesis by auto
  qed
qed

lemma addMLs_locs_mono:
  assumes "allocated st db" and "addMLs st db mls = (st', db')"
  shows "locs_of st db m \<subseteq> locs_of st' db' m"
proof (cases "dict_get db m")
  case None
  then show ?thesis by (simp add: locs_of_def)
next
  case (Some s)
  from addMLs_get_stable [OF Some assms(2)] have "dict_get db' m = Some s" .
  moreover from addMLs_grows [OF assms] allocated_get [OF assms(1) Some]
  have "sets st s \<subseteq> sets st' s" by blast
  ultimately show ?thesis using Some by (simp add: locs_of_def)
qed

text \<open>One round of the import loop that raises nothing.\<close>

lemma importFile_loop_step:
  assumes "importFile_loop ev mz path mat mc st db ((i, line) # inp) = (None, mc', st', db')"
  obtains ms mc1 mls st1 st2 db2 where
    "getMorphemes ev mz mc (strip line) None = (Inr (Some ms), mc1)"
    and "new_locs st (TextFile_init path (int i + 1) mat None) ms = (mls, st1)"
    and "addMLs st1 db mls = (st2, db2)"
    and "importFile_loop ev mz path mat mc1 st2 db2 inp = (None, mc', st', db')"
proof -
  obtain r mc1 where g: "getMorphemes ev mz mc (strip line) None = (r, mc1)"
    by (cases "getMorphemes ev mz mc (strip line) None")
  with assms obtain ms where r: "r = Inr (Some ms)"
    by (cases r; cases "projr r") auto
  obtain mls st1 where n: "new_locs st (TextFile_init path (int i + 1) mat None) ms = (mls, st1)"
    by (cases "new_locs st (TextFile_init path (int i + 1) mat None) ms")
  obtain st2 db2 where a: "addMLs st1 db mls = (st2, db2)"
    by (cases "addMLs st1 db mls")
  from assms g r n a have "importFile_loop ev mz path mat mc1 st2 db2 inp = (None, mc', st', db')"
    by simp
  with g r n a show ?thesis
    by (auto intro: that)
qed

lemma importFile_loop_grows:
  assumes "allocated st db"
    and "importFile_loop ev mz path mat mc st db inp = (None, mc', st', db')"
  shows "allocated st' db' \<and> locs_of st db m \<subseteq> locs_of st' db' m"
  using assms
proof (induction inp arbitrary: mc st db)
  case Nil
  then show ?case by simp
next
  case (Cons x inp)
  obtain i line where x: "x = (i, line)" by (cases x)
  from Cons.prems(2) [unfolded x]
  obtain ms mc1 mls st1 st2 db2 where
    n: "new_locs st (TextFile_init path (int i + 1) mat None) ms = (mls, st1)"
    and a: "addMLs st1 db mls = (st2, db2)"
    and rest: "importFile_loop ev mz path mat mc1 st2 db2 inp = (None, mc', st', db')"
    by (rule importFile_loop_step)
  from new_locs_store [OF n] have same: "sets st1 = sets st" "next_set st1 = next_set st"
    by simp_all
  from Cons.prems(1) same have alloc1: "allocated st1 db"
    by (simp add: allocated_iff)
  from addMLs_grows [OF alloc1 a] have alloc2: "allocated st2 db2" by simp
  from same have "locs_of st db m = locs_of st1 db m"
    by (simp add: locs_of_def split: option.splits)
  with addMLs_locs_mono [OF alloc1 a, of m] Cons.IH [OF alloc2 rest] show ?case
    by auto
qed

lemma importFile_loop_append:
  assumes "importFile_loop ev mz path mat mc st db (xs @ ys) = (None, mc', st', db')"
  shows "\<exists>mc1 st1 db1.
           importFile_loop ev mz path mat mc st db xs = (None, mc1, st1, db1)
         \<and> importFile_loop ev mz path mat mc1 st1 db1 ys = (None, mc', st', db')"
  using assms
proof (induction xs arbitrary: mc st db)
  case Nil
  then show ?case by simp
next
  case (Cons x xs)
  obtain i line where x: "x = (i, line)" by (cases x)
  from Cons.prems [unfolded x append_Cons]
  obtain ms mc1 mls st1 st2 db2 where
    g: "getMorphemes ev mz mc (strip line) None = (Inr (Some ms), mc1)"
    and n: "new_locs st (TextFile_init path (int i + 1) mat None) ms = (mls, st1)"
    and a: "addMLs st1 db mls = (st2, db2)"
    and rest: "importFile_loop ev mz path mat mc1 st2 db2 (xs @ ys) = (None, mc', st', db')"
    by (rule importFile_loop_step)
  from Cons.IH [OF rest] g n a x show ?case
    by simp
qed

text \<open>
  Claim C8.  When reading the file raises \<^verbatim>\<open>UnicodeDecodeError\<close>, \<^verbatim>\<open>importFile\<close>
  raises it and the cache, the store and the dict are those before the call.  When the
  file is read as the lines \<open>inp\<close> and the call returns, then for every index
  \<open>i < length inp\<close> the loop has reached line \<open>i\<close> in some state, \<^verbatim>\<open>getMorphemes\<close> has
  answered a list \<open>ms\<close> for the stripped line in that state, and every morpheme of \<open>ms\<close> has
  in the final database a location with the attribute values of
  \<^verbatim>\<open>TextFile(path, i + 1, maturity)\<close>: the line numbers start at 1 and the weight is the
  default 1.
\<close>

theorem importFile_lines_and_decoding:
  "(readlines ev path = Inl UnicodeDecodeError
      \<longrightarrow> importFile ev mz mc st db path maturity' = (Some UnicodeDecodeError, mc, st, db))
   \<and> (\<forall>inp mc' st' db' i.
        readlines ev path = Inr inp \<longrightarrow> allocated st db
        \<longrightarrow> importFile ev mz mc st db path maturity' = (None, mc', st', db')
        \<longrightarrow> i < length inp
        \<longrightarrow> (\<exists>mc1 st1 db1 ms mc2.
               importFile_loop ev mz path (case maturity' of None \<Rightarrow> 0 | Some v \<Rightarrow> v) mc st db
                   (take i (enumerate 0 inp)) = (None, mc1, st1, db1)
             \<and> getMorphemes ev mz mc1 (strip (inp ! i)) None = (Inr (Some ms), mc2)
             \<and> (\<forall>m\<in>set ms. \<exists>l\<in>locs_of st' db' m.
                   obj_val l = TextFile path (int i + 1) (case maturity' of None \<Rightarrow> 0 | Some v \<Rightarrow> v) 1)))"
proof (intro conjI allI impI)
  assume "readlines ev path = Inl UnicodeDecodeError"
  then show "importFile ev mz mc st db path maturity' = (Some UnicodeDecodeError, mc, st, db)"
    by (simp add: importFile_def)
next
  fix inp mc' st' db' i
  let ?mat = "case maturity' of None \<Rightarrow> 0 | Some v \<Rightarrow> v"
  assume rd: "readlines ev path = Inr inp" and alloc: "allocated st db"
    and run: "importFile ev mz mc st db path maturity' = (None, mc', st', db')"
    and i: "i < length inp"
  let ?xs = "enumerate 0 inp"
  from i have xs: "?xs = take i ?xs @ (i, inp ! i) # drop (Suc i) ?xs"
    using id_take_nth_drop [of i ?xs] by (simp add: nth_enumerate_eq)
  from run rd have "importFile_loop ev mz path ?mat mc st db ?xs = (None, mc', st', db')"
    by (simp add: importFile_def)
  with xs have "importFile_loop ev mz path ?mat mc st db
      (take i ?xs @ (i, inp ! i) # drop (Suc i) ?xs) = (None, mc', st', db')"
    by simp
  from importFile_loop_append [OF this]
  obtain mc1 st1 db1 where
    pre: "importFile_loop ev mz path ?mat mc st db (take i ?xs) = (None, mc1, st1, db1)"
    and post: "importFile_loop ev mz path ?mat mc1 st1 db1 ((i, inp ! i) # drop (Suc i) ?xs)
                 = (None, mc', st', db')"
    by blast
  from post obtain ms mc2 mls st2 st3 db3 where
    g: "getMorphemes ev mz mc1 (strip (inp ! i)) None = (Inr (Some ms), mc2)"
    and n: "new_locs st1 (TextFile_init path (int i + 1) ?mat None) ms = (mls, st2)"
    and a: "addMLs st2 db1 mls = (st3, db3)"
    and rest: "importFile_loop ev mz path ?mat mc2 st3 db3 (drop (Suc i) ?xs) = (None, mc', st', db')"
    by (rule importFile_loop_step)
  from importFile_loop_grows [OF alloc pre] have alloc1: "allocated st1 db1" by simp
  from new_locs_store [OF n] alloc1 have alloc2: "allocated st2 db1"
    by (simp add: allocated_iff)
  from addMLs_grows [OF alloc2 a] have alloc3: "allocated st3 db3" by simp
  have "\<exists>l\<in>locs_of st' db' m. obj_val l = TextFile path (int i + 1) ?mat 1" if "m \<in> set ms" for m
  proof -
    from new_locs_pairs [OF n that] obtain l where
      l: "(m, l) \<in> set mls" "obj_val l = TextFile_init path (int i + 1) ?mat None"
      by blast
    from addMLs_inserted [OF alloc2 a l(1)] have "l \<in> locs_of st3 db3 m"
      by (auto simp: locs_of_def)
    with importFile_loop_grows [OF alloc3 rest, of m] have "l \<in> locs_of st' db' m"
      by auto
    with l(2) show ?thesis
      by (auto simp: TextFile_init_def)
  qed
  with pre g
  show "\<exists>mc1 st1 db1 ms mc2.
               importFile_loop ev mz path ?mat mc st db (take i (enumerate 0 inp)) = (None, mc1, st1, db1)
             \<and> getMorphemes ev mz mc1 (strip (inp ! i)) None = (Inr (Some ms), mc2)
             \<and> (\<forall>m\<in>set ms. \<exists>l\<in>locs_of st' db' m. obj_val l = TextFile path (int i + 1) ?mat 1)"
    by blast
qed

text \<open>
  The theorem at the file whose bytes are not UTF-8, imported into a database with
  contents, and at the file of two lines, whose second line is recorded under line
  number 2.
\<close>

theorem importFile_lines_and_decoding_witness:
  "readlines file_env ''latin1.txt'' = Inl UnicodeDecodeError
   \<and> importFile file_env word_morphemizer empty_cache twice_store first_db ''latin1.txt'' None
       = (Some UnicodeDecodeError, empty_cache, twice_store, first_db)
   \<and> readlines file_env ''a.txt'' = Inr [''inu'' @ [CHR 0x0A], ''neko'' @ [CHR 0x0A]]
   \<and> allocated empty_store []
   \<and> fst (importFile file_env word_morphemizer empty_cache empty_store [] ''a.txt'' None) = None
   \<and> snd (snd (snd (importFile file_env word_morphemizer empty_cache empty_store [] ''a.txt'' None)))
       = first_db
   \<and> (\<exists>l\<in>locs_of
           (fst (snd (snd (importFile file_env word_morphemizer empty_cache empty_store [] ''a.txt'' None))))
           first_db m_neko.
         obj_val l = TextFile ''a.txt'' 2 0 1)"
proof -
  let ?inp = "[''inu'' @ [CHR 0x0A], ''neko'' @ [CHR 0x0A]]"
  have bad: "readlines file_env ''latin1.txt'' = Inl UnicodeDecodeError"
    and good: "readlines file_env ''a.txt'' = Inr ?inp"
    and alloc: "allocated empty_store []"
    by (simp_all add: file_env_def allocated_def)
  note main = importFile_lines_and_decoding
  from main [of file_env "''latin1.txt''" word_morphemizer empty_cache twice_store first_db None] bad
  have raised: "importFile file_env word_morphemizer empty_cache twice_store first_db ''latin1.txt'' None
       = (Some UnicodeDecodeError, empty_cache, twice_store, first_db)"
    by blast
  from import_twice obtain mc' st' where
    run: "importFile file_env word_morphemizer empty_cache empty_store [] ''a.txt'' None
            = (None, mc', st', first_db)"
    by blast
  have i: "1 < length ?inp" by simp
  from main [of file_env "''a.txt''" word_morphemizer empty_cache empty_store "[]" None]
    good alloc run i
  obtain mc1 st1 db1 ms mc2 where
    pre: "importFile_loop file_env word_morphemizer ''a.txt'' (case None of None \<Rightarrow> 0 | Some v \<Rightarrow> v)
            empty_cache empty_store [] (take 1 (enumerate 0 ?inp)) = (None, mc1, st1, db1)"
    and g: "getMorphemes file_env word_morphemizer mc1 (strip (?inp ! 1)) None = (Inr (Some ms), mc2)"
    and rec: "\<forall>m\<in>set ms. \<exists>l\<in>locs_of st' first_db m.
                obj_val l = TextFile ''a.txt'' (int 1 + 1) (case None of None \<Rightarrow> 0 | Some v \<Rightarrow> v) 1"
    by blast
  from pre have "cache mc1 (''Language with spaces'', ''neko'') = None"
    by (auto simp add: importFile_def getMorphemes.simps strip_def isspace_def enumerate_eq_zip cache_store_def
        save_def Let_def new_loc_def new_set_def TextFile_init_def file_env_def word_morphemizer_def
        empty_cache_def empty_store_def)
  with g have "ms = [m_neko]"
    by (auto simp add: getMorphemes.simps strip_def isspace_def cache_store_def save_def Let_def
        file_env_def word_morphemizer_def m_neko_def)
  with rec have "\<exists>l\<in>locs_of st' first_db m_neko. obj_val l = TextFile ''a.txt'' 2 0 1"
    by simp
  with bad raised good alloc run show ?thesis
    by simp
qed

section \<open>The hypotheses on the store are invariants\<close>

text \<open>
  The theorems on \<^verbatim>\<open>merge\<close> and \<^verbatim>\<open>addMLs\<close> ask that a dict has no two equal keys, that
  its set objects are allocated, and that no set object is stored under two different
  morphemes.  All three hold of the empty database in any store, and \<^verbatim>\<open>addMLs\<close>,
  \<^verbatim>\<open>merge\<close> and the import loop keep them, also for the entries \<open>others\<close> of the other
  databases in the store.  \<^verbatim>\<open>addMLs1\<close> alone can store the caller's set object under a
  second morpheme.
\<close>

lemma addMLs_keeps_invariants:
  assumes "allocated st (db @ others)" and "sets_keyed (db @ others)"
    and "addMLs st db mls = (st', db')"
  shows "allocated st' (db' @ others) \<and> sets_keyed (db' @ others)"
  using assms
proof (induction mls arbitrary: st db)
  case Nil
  then show ?case by simp
next
  case (Cons x mls)
  obtain k l where x: "x = (k, l)" by (cases x)
  show ?case
  proof (cases "dict_get db k")
    case None
    let ?st1 = "st\<lparr>sets := (sets st)(next_set st := {l}), next_set := Suc (next_set st)\<rparr>"
    let ?db1 = "db @ [(k, next_set st)]"
    have run: "addMLs ?st1 ?db1 mls = (st', db')"
      using Cons.prems(3) x addMLs_step_None [OF None, of st l mls] by simp
    have alloc: "allocated ?st1 (?db1 @ others)"
      using Cons.prems(1) by (auto simp: allocated_iff less_Suc_eq)
    have keyed: "sets_keyed (?db1 @ others)"
      using Cons.prems(1,2) by (fastforce simp: sets_keyed_iff allocated_iff)
    from Cons.IH [OF alloc keyed run] show ?thesis .
  next
    case (Some s)
    let ?st1 = "st\<lparr>sets := (sets st)(s := insert l (sets st s))\<rparr>"
    have run: "addMLs ?st1 db mls = (st', db')"
      using Cons.prems(3) x Some by simp
    have alloc: "allocated ?st1 (db @ others)"
      using Cons.prems(1) by (simp add: allocated_iff)
    from Cons.IH [OF alloc Cons.prems(2) run] show ?thesis .
  qed
qed

lemma merge_loop_dict_ok:
  "dict_ok db \<Longrightarrow> merge_loop st db items new = (st', db', new') \<Longrightarrow> dict_ok db'"
proof (induction items arbitrary: st db new)
  case Nil
  then show ?case by simp
next
  case (Cons x items)
  obtain k l where x: "x = (k, l)" by (cases x)
  show ?case
  proof (cases "dict_get db k")
    case None
    with Cons.prems(2) x
    have "merge_loop st (dict_set db k l) items (new + card (sets st l)) = (st', db', new')"
      by simp
    from Cons.IH [OF dict_ok_dict_set [OF Cons.prems(1)] this] show ?thesis .
  next
    case (Some s)
    with Cons.prems(2) x
    have "merge_loop (st\<lparr>sets := (sets st)(s := sets st s \<union> sets st l)\<rparr>) db items
            (new + card (sets st l - sets st s)) = (st', db', new')"
      by simp
    from Cons.IH [OF Cons.prems(1) this] show ?thesis .
  qed
qed

lemma merge_keeps_invariants:
  assumes "dict_ok db" and "allocated st (db @ md @ others)" and "sets_keyed (db @ md @ others)"
    and "merge st db md = (st', db', new)"
  shows "dict_ok db' \<and> allocated st' (db' @ md @ others) \<and> sets_keyed (db' @ md @ others)"
proof -
  note sub = merge_loop_entries [OF assms(4) [unfolded merge_def]]
  note cnt = merge_loop_counters [OF assms(4) [unfolded merge_def]]
  have "dict_ok db'"
    using assms(1) assms(4) [unfolded merge_def] by (rule merge_loop_dict_ok)
  moreover have "allocated st' (db' @ md @ others)"
    using assms(2) sub cnt by (auto simp: allocated_iff)
  moreover have "sets_keyed (db' @ md @ others)"
    using assms(3) sub by (auto elim!: sets_keyed_subset)
  ultimately show ?thesis by simp
qed

lemma importFile_loop_keeps_invariants:
  assumes "dict_ok db" and "allocated st (db @ others)" and "sets_keyed (db @ others)"
    and "importFile_loop ev mz path mat mc st db inp = (e, mc', st', db')"
  shows "dict_ok db' \<and> allocated st' (db' @ others) \<and> sets_keyed (db' @ others)"
  using assms
proof (induction inp arbitrary: mc st db)
  case Nil
  then show ?case by simp
next
  case (Cons x inp)
  obtain i line where x: "x = (i, line)" by (cases x)
  obtain r mc1 where g: "getMorphemes ev mz mc (strip line) None = (r, mc1)"
    by (cases "getMorphemes ev mz mc (strip line) None")
  show ?case
  proof (cases "\<exists>ms. r = Inr (Some ms)")
    case False
    with Cons.prems(4) x g have "st' = st" "db' = db"
      by (cases r; cases "projr r"; auto)+
    with Cons.prems(1-3) show ?thesis by simp
  next
    case True
    then obtain ms where r: "r = Inr (Some ms)" by blast
    obtain mls st1 where n: "new_locs st (TextFile_init path (int i + 1) mat None) ms = (mls, st1)"
      by (cases "new_locs st (TextFile_init path (int i + 1) mat None) ms")
    obtain st2 db2 where a: "addMLs st1 db mls = (st2, db2)"
      by (cases "addMLs st1 db mls")
    from Cons.prems(4) x g r n a
    have rest: "importFile_loop ev mz path mat mc1 st2 db2 inp = (e, mc', st', db')"
      by simp
    from new_locs_store [OF n] Cons.prems(2) have alloc1: "allocated st1 (db @ others)"
      by (simp add: allocated_iff)
    from addMLs_keeps_invariants [OF alloc1 Cons.prems(3) a]
    have inv2: "allocated st2 (db2 @ others)" "sets_keyed (db2 @ others)" by simp_all
    from addMLs_dict_ok [OF Cons.prems(1) a] have ok2: "dict_ok db2" .
    from Cons.IH [OF ok2 inv2 rest] show ?thesis .
  qed
qed

end
